theory Spec2Isabelle
  imports Complex_Main "HOL-Library.Word"
begin

section \<open>Data model of btree.hpp\<close>

text \<open>
  Nodes live in a heap. An address is the index of a node in the heap; \<open>new\<close> appends a
  node, so addresses are handed out in allocation order. A child pointer is an
  \<open>addr option\<close>, with \<open>None\<close> for \<open>nullptr\<close>.
\<close>

type_synonym addr = nat

type_synonym treedir_t = "8 word"

definition ROOT :: treedir_t where
  "ROOT = 0"

definition LEFT :: treedir_t where
  "LEFT = 1"

definition RIGHT :: treedir_t where
  "RIGHT = 2"

record 'a BinaryLeaf =
  mValue :: 'a
  mDepth :: "16 word"
  mDirection :: treedir_t
  mRight :: "addr option"
  mLeft :: "addr option"

type_synonym 'a heap = "'a BinaryLeaf list"

text \<open>
  A \<open>BinaryLeaf<T>**\<close> is either the address of the caller's root pointer variable or the
  address of the \<open>mRight\<close> or \<open>mLeft\<close> field of an allocated node.
\<close>

datatype slot = OutputVar | RightField addr | LeftField addr

record leaf_generation_data_t =
  "output" :: slot
  parent :: "addr option"
  direction :: treedir_t

datatype error = InvalidArgument | OutOfRange | InvalidPointer

text \<open>The constructor \<open>BinaryLeaf(T value)\<close>.\<close>

definition BinaryLeaf_new :: "'a \<Rightarrow> 'a BinaryLeaf" where
  "BinaryLeaf_new v =
     \<lparr>mValue = v, mDepth = 0, mDirection = ROOT, mRight = None, mLeft = None\<rparr>"

text \<open>\<open>new BinaryLeaf<T>(value)\<close>: the fresh node gets the next address.\<close>

definition alloc :: "'a heap \<Rightarrow> 'a \<Rightarrow> addr \<times> 'a heap" where
  "alloc h v = (length h, h @ [BinaryLeaf_new v])"

text \<open>
  \<open>SetLeftChild\<close> and \<open>SetRightChild\<close> write the child pointer first and then the
  child's depth (16-bit, so the addition wraps) and direction. A pointer that does not
  denote an allocated node is reported as \<open>InvalidPointer\<close>.
\<close>

definition SetLeftChild :: "'a heap \<Rightarrow> addr \<Rightarrow> addr \<Rightarrow> error + 'a heap" where
  "SetLeftChild h this leaf =
     (if this < length h \<and> leaf < length h then
        (let h1 = h[this := (h ! this)\<lparr>mLeft := Some leaf\<rparr>]
         in Inr (h1[leaf := (h1 ! leaf)\<lparr>mDepth := mDepth (h1 ! this) + 1,
                                         mDirection := LEFT\<rparr>]))
      else Inl InvalidPointer)"

definition SetRightChild :: "'a heap \<Rightarrow> addr \<Rightarrow> addr \<Rightarrow> error + 'a heap" where
  "SetRightChild h this leaf =
     (if this < length h \<and> leaf < length h then
        (let h1 = h[this := (h ! this)\<lparr>mRight := Some leaf\<rparr>]
         in Inr (h1[leaf := (h1 ! leaf)\<lparr>mDepth := mDepth (h1 ! this) + 1,
                                         mDirection := RIGHT\<rparr>]))
      else Inl InvalidPointer)"

text \<open>The non-const \<open>GetRightChild\<close> and \<open>GetLeftChild\<close> return the address of the field.\<close>

definition GetRightChild_ref :: "addr \<Rightarrow> slot" where
  "GetRightChild_ref this = RightField this"

definition GetLeftChild_ref :: "addr \<Rightarrow> slot" where
  "GetLeftChild_ref this = LeftField this"

text \<open>
  \<open>( *leafData.output) = p\<close>: a store through the slot. The state is the heap together
  with the caller's root pointer variable.
\<close>

definition store_slot :: "'a heap \<times> addr option \<Rightarrow> slot \<Rightarrow> addr \<Rightarrow> error + ('a heap \<times> addr option)" where
  "store_slot st sl p =
     (case st of (h, out) \<Rightarrow>
        (case sl of
           OutputVar \<Rightarrow> Inr (h, Some p)
         | RightField a \<Rightarrow>
             if a < length h then Inr (h[a := (h ! a)\<lparr>mRight := Some p\<rparr>], out)
             else Inl InvalidPointer
         | LeftField a \<Rightarrow>
             if a < length h then Inr (h[a := (h ! a)\<lparr>mLeft := Some p\<rparr>], out)
             else Inl InvalidPointer))"

text \<open>
  The part of the loop bodies that \<open>Deserialize\<close> and \<open>GenerateTree\<close> share: create the
  node for the front request, store it through the request's slot and, when the request
  has a parent, attach it on the side the request names. Returns the new node's address.
\<close>

definition create_leaf :: "'a heap \<times> addr option \<Rightarrow> leaf_generation_data_t \<Rightarrow> 'a \<Rightarrow> error + (addr \<times> 'a heap \<times> addr option)" where
  "create_leaf st leafData v =
     (case st of (h, out) \<Rightarrow>
        (case alloc h v of (p, h1) \<Rightarrow>
           (case store_slot (h1, out) (output leafData) p of
              Inl e \<Rightarrow> Inl e
            | Inr (h2, out2) \<Rightarrow>
                (case parent leafData of
                   None \<Rightarrow> Inr (p, h2, out2)
                 | Some par \<Rightarrow>
                     if direction leafData = LEFT then
                       (case SetLeftChild h2 par p of
                          Inl e \<Rightarrow> Inl e
                        | Inr h3 \<Rightarrow> Inr (p, h3, out2))
                     else if direction leafData = RIGHT then
                       (case SetRightChild h2 par p of
                          Inl e \<Rightarrow> Inl e
                        | Inr h3 \<Rightarrow> Inr (p, h3, out2))
                     else Inr (p, h2, out2)))))"

section \<open>Input streams\<close>

text \<open>
  A \<open>std::istream\<close> is the text that is still unread and the \<open>good()\<close> flag.
  \<open>std::getline\<close> on a good stream extracts the characters up to the next newline, which
  it consumes; when it reaches the end of the text instead, the stream stops being good.
  On a stream that is not good it leaves the string as it was.
\<close>

record istream =
  content :: string
  good :: bool

definition newline :: char where
  "newline = CHR 0x0A"

definition getline :: "istream \<Rightarrow> string \<Rightarrow> string \<times> istream" where
  "getline s curline =
     (if \<not> good s then (curline, s)
      else (case dropWhile (\<lambda>c. c \<noteq> newline) (content s) of
              [] \<Rightarrow> (takeWhile (\<lambda>c. c \<noteq> newline) (content s), \<lparr>content = [], good = False\<rparr>)
            | c # rest \<Rightarrow>
                (takeWhile (\<lambda>c. c \<noteq> newline) (content s), \<lparr>content = rest, good = True\<rparr>)))"

definition istream_of :: "string \<Rightarrow> istream" where
  "istream_of txt = \<lparr>content = txt, good = True\<rparr>"

section \<open>Deserialize\<close>

text \<open>
  One pass of the loop body of \<open>BinaryLeaf::Deserialize\<close> for a non-empty line: parse the
  value (an exception of the parser ends the call), create the node for the front
  request, push the requests for its right and then its left slot, pop the front.
\<close>

definition Deserialize_body ::
  "(string \<Rightarrow> error + 'a) \<Rightarrow> 'a heap \<times> addr option \<times> leaf_generation_data_t list \<Rightarrow> string
     \<Rightarrow> error + ('a heap \<times> addr option \<times> leaf_generation_data_t list)" where
  "Deserialize_body valueDeserializer st curline =
     (case st of (h, out, toPopulate) \<Rightarrow>
        (case valueDeserializer curline of
           Inl e \<Rightarrow> Inl e
         | Inr v \<Rightarrow>
             (case toPopulate of
                [] \<Rightarrow> Inl InvalidPointer
              | leafData # rest \<Rightarrow>
                  (case create_leaf (h, out) leafData v of
                     Inl e \<Rightarrow> Inl e
                   | Inr (p, h', out') \<Rightarrow>
                       Inr (h', out',
                            rest @ [\<lparr>output = GetRightChild_ref p, parent = Some p, direction = RIGHT\<rparr>,
                                    \<lparr>output = GetLeftChild_ref p, parent = Some p, direction = LEFT\<rparr>])))))"

function Deserialize_loop ::
  "(string \<Rightarrow> error + 'a) \<Rightarrow> 'a heap \<times> addr option \<times> leaf_generation_data_t list \<Rightarrow> istream \<Rightarrow> string
     \<Rightarrow> error + ('a heap \<times> addr option)" where
  "Deserialize_loop valueDeserializer st s curline =
     (if good s \<and> length (snd (snd st)) > 0 then
        (case getline s curline of (curline', s') \<Rightarrow>
           if length curline' \<le> 0 then Deserialize_loop valueDeserializer st s' curline'
           else (case Deserialize_body valueDeserializer st curline' of
                   Inl e \<Rightarrow> Inl e
                 | Inr st' \<Rightarrow> Deserialize_loop valueDeserializer st' s' curline'))
      else Inr (fst st, fst (snd st)))"
  by pat_completeness auto

lemma getline_decreases:
  assumes "good s" and "getline s curline = (l, s')"
  shows "length (content s') + (if good s' then 1 else 0) < length (content s) + (if good s then 1 else 0)"
proof (cases "dropWhile (\<lambda>c. c \<noteq> newline) (content s)")
  case Nil
  with assms show ?thesis by (auto simp: getline_def)
next
  case (Cons c rest)
  have "length (dropWhile (\<lambda>c. c \<noteq> newline) (content s)) \<le> length (content s)"
    by (rule length_dropWhile_le)
  with Cons assms show ?thesis by (auto simp: getline_def)
qed

termination Deserialize_loop
proof (relation "measure (\<lambda>(vd, st, s, cl). length (content s) + (if good s then 1 else 0))")
  show "wf (measure (\<lambda>(vd, st, s, cl). length (content s) + (if good s then 1 else 0)))"
    by simp
next
  fix valueDeserializer :: "string \<Rightarrow> error + 'a"
    and st :: "'a heap \<times> addr option \<times> leaf_generation_data_t list"
    and s curline x y
  assume "good s \<and> 0 < length (snd (snd st))" "(x, y) = getline s curline"
  then show "((valueDeserializer, st, y, x), valueDeserializer, st, s, curline)
      \<in> measure (\<lambda>(vd, st, s, cl). length (content s) + (if good s then 1 else 0))"
    using getline_decreases [of s curline x y] by simp
next
  fix valueDeserializer :: "string \<Rightarrow> error + 'a"
    and st :: "'a heap \<times> addr option \<times> leaf_generation_data_t list"
    and s curline x y and st' :: "'a heap \<times> addr option \<times> leaf_generation_data_t list"
  assume "good s \<and> 0 < length (snd (snd st))" "(x, y) = getline s curline"
  then show "((valueDeserializer, st', y, x), valueDeserializer, st, s, curline)
      \<in> measure (\<lambda>(vd, st, s, cl). length (content s) + (if good s then 1 else 0))"
    using getline_decreases [of s curline x y] by simp
qed

declare Deserialize_loop.simps [simp del]

text \<open>
  \<open>Deserialize(stream, output, valueDeserializer)\<close>: the queue starts with the request for
  the root, which has no parent and stores through \<open>output\<close>. \<open>out\<close> is the pointer that
  \<open>output\<close> holds at the call. The call reads and writes no node that exists before it,
  so its heap starts empty and holds the nodes that the call creates. The result is that
  heap and the pointer that \<open>output\<close> holds at the end.
\<close>

definition Deserialize ::
  "addr option \<Rightarrow> istream \<Rightarrow> (string \<Rightarrow> error + 'a) \<Rightarrow> error + ('a heap \<times> addr option)" where
  "Deserialize out s valueDeserializer =
     Deserialize_loop valueDeserializer
       ([], out, [\<lparr>output = OutputVar, parent = None, direction = ROOT\<rparr>]) s []"

text \<open>
  The parser that \<open>main\<close> passes is \<open>std::stoi\<close>: it skips leading white space, takes an
  optional sign and the longest run of decimal digits, and ignores what follows. It
  throws \<open>invalid_argument\<close> when there is no digit and \<open>out_of_range\<close> when the number
  does not fit an \<open>int\<close>.
\<close>

definition isspace :: "char \<Rightarrow> bool" where
  "isspace c = (c \<in> set [CHR '' '', CHR 0x09, CHR 0x0A, CHR 0x0B, CHR 0x0C, CHR 0x0D])"

definition isdigit :: "char \<Rightarrow> bool" where
  "isdigit c = (48 \<le> (of_char c :: nat) \<and> (of_char c :: nat) \<le> 57)"

definition digits_value :: "string \<Rightarrow> nat" where
  "digits_value ds = foldl (\<lambda>n c. 10 * n + ((of_char c :: nat) - 48)) 0 ds"

definition stoi :: "string \<Rightarrow> error + 32 word" where
  "stoi str =
     (let s1 = dropWhile isspace str;
          neg = (case s1 of [] \<Rightarrow> False | c # r \<Rightarrow> c = CHR ''-'');
          s2 = (case s1 of [] \<Rightarrow> [] | c # r \<Rightarrow> if c = CHR ''-'' \<or> c = CHR ''+'' then r else s1);
          ds = takeWhile isdigit s2;
          v = (if neg then - int (digits_value ds) else int (digits_value ds))
      in if ds = [] then Inl InvalidArgument
         else if v < - (2 ^ 31) \<or> 2 ^ 31 \<le> v then Inl OutOfRange
         else Inr (word_of_int v))"

section \<open>GenerateTree\<close>

text \<open>
  The random source is the sequence of values that successive calls of \<open>rand()\<close> return:
  \<open>rand i\<close> is the result of call number \<open>i\<close>, a number between 0 and \<open>RAND_MAX\<close>. The
  state of the loop carries the number of calls made so far. \<open>maxLeaves\<close> and
  \<open>leavesGenerated\<close> are 32-bit \<open>int\<close>s, compared as signed numbers.
\<close>

function GenerateTree_loop ::
  "(nat \<Rightarrow> nat) \<Rightarrow> 32 word
     \<Rightarrow> (32 word) heap \<times> addr option \<times> leaf_generation_data_t list \<times> 32 word \<times> nat
     \<Rightarrow> error + ((32 word) heap \<times> addr option \<times> nat)" where
  "GenerateTree_loop rand maxLeaves (h, result, toGenerate, leavesGenerated, calls) =
     (case toGenerate of
        [] \<Rightarrow> Inr (h, result, calls)
      | leafData # rest \<Rightarrow>
          (case create_leaf (h, result) leafData (word_of_nat (rand calls mod 255)) of
             Inl e \<Rightarrow> Inl e
           | Inr (p, h', result') \<Rightarrow>
               if sint maxLeaves \<le> sint (leavesGenerated + 1) then Inr (h', result', calls + 1)
               else GenerateTree_loop rand maxLeaves
                      (h', result',
                       rest @ [\<lparr>output = GetRightChild_ref p, parent = Some p, direction = RIGHT\<rparr>,
                               \<lparr>output = GetLeftChild_ref p, parent = Some p, direction = LEFT\<rparr>],
                       leavesGenerated + 1, calls + 1)))"
  by pat_completeness auto

lemma unat_pred_less:
  fixes x :: "32 word"
  assumes "x \<noteq> 0"
  shows "unat (x - 1) < unat x"
  using assms by (simp add: unat_minus_one unat_gt_0)

lemma budget_measure_decreases:
  fixes maxLeaves leavesGenerated :: "32 word"
  assumes "\<not> sint maxLeaves \<le> sint (leavesGenerated + 1)"
  shows "unat (maxLeaves - leavesGenerated - 2) < unat (maxLeaves - leavesGenerated - 1)"
proof -
  have "maxLeaves \<noteq> leavesGenerated + 1"
    using assms by auto
  then have "maxLeaves - leavesGenerated - 1 \<noteq> 0"
    by (auto simp: algebra_simps)
  then have "unat (maxLeaves - leavesGenerated - 1 - 1) < unat (maxLeaves - leavesGenerated - 1)"
    by (rule unat_pred_less)
  moreover have "maxLeaves - leavesGenerated - 1 - 1 = maxLeaves - leavesGenerated - 2"
    by simp
  ultimately show ?thesis by simp
qed

termination GenerateTree_loop
  by (relation "measure (\<lambda>(rand, maxLeaves, h, result, toGenerate, leavesGenerated, calls).
                   unat (maxLeaves - leavesGenerated - 1))")
     (simp_all add: budget_measure_decreases)

declare GenerateTree_loop.simps [simp del]

text \<open>\<open>GenerateTree(maxLeaves)\<close> returns the tree; the model also returns the heap and the
  number of calls of \<open>rand()\<close>.\<close>

definition GenerateTree :: "(nat \<Rightarrow> nat) \<Rightarrow> 32 word \<Rightarrow> error + ((32 word) heap \<times> addr option \<times> nat)" where
  "GenerateTree rand maxLeaves =
     GenerateTree_loop rand maxLeaves
       ([], None, [\<lparr>output = OutputVar, parent = None, direction = ROOT\<rparr>], 0, 0)"

section \<open>Walk\<close>

text \<open>
  The callback of \<open>Walk\<close> captures its variables by reference; in the model it takes the
  captured state and returns it with the \<open>bool\<close>. The loop may not return (on a heap
  with a cycle), so it is a partial function: \<open>None\<close> stands for a call without a result,
  which is also the outcome of reading through a pointer that denotes no node.
\<close>

partial_function (option) Walk_loop ::
  "'a heap \<Rightarrow> (addr \<Rightarrow> 's \<Rightarrow> (bool \<times> 's) option) \<Rightarrow> addr list \<Rightarrow> 's \<Rightarrow> 's option" where
  "Walk_loop h walker collected s =
     (case collected of
        [] \<Rightarrow> Some s
      | leaf # rest \<Rightarrow>
          (if leaf < length h then
             (let q1 = (case mRight (h ! leaf) of None \<Rightarrow> rest | Some r \<Rightarrow> rest @ [r]);
                  q2 = (case mLeft (h ! leaf) of None \<Rightarrow> q1 | Some l \<Rightarrow> q1 @ [l])
              in case walker leaf s of
                   None \<Rightarrow> None
                 | Some (shouldStop, s') \<Rightarrow>
                     if shouldStop then Some s' else Walk_loop h walker q2 s')
           else None))"

declare Walk_loop.simps [code]

definition Walk :: "'a heap \<Rightarrow> (addr \<Rightarrow> 's \<Rightarrow> (bool \<times> 's) option) \<Rightarrow> addr \<Rightarrow> bool \<Rightarrow> 's \<Rightarrow> 's option" where
  "Walk h walker this includeSelf s =
     (if includeSelf then Walk_loop h walker [this] s
      else if this < length h then
        (let c1 = (case mLeft (h ! this) of None \<Rightarrow> [] | Some l \<Rightarrow> [l]);
             c2 = (case mRight (h ! this) of None \<Rightarrow> c1 | Some r \<Rightarrow> c1 @ [r])
         in Walk_loop h walker c2 s)
      else None)"

section \<open>Serialize\<close>

text \<open>
  The output stream is the text written so far. \<open>to_text\<close> is \<open>operator<<\<close> of the value
  type. \<open>dec\<close> is \<open>operator<<\<close> of an unsigned number. \<open>skipDeep\<close> is a \<open>uint16_t\<close>: the
  comparison with \<open>-1\<close> and the comparison of the depths are made on the promoted \<open>int\<close>s.
\<close>

fun dec :: "nat \<Rightarrow> string" where
  "dec n = (if n < 10 then [char_of (48 + n)] else dec (n div 10) @ [char_of (48 + n mod 10)])"

declare dec.simps [simp del]

text \<open>\<open>operator<<\<close> of an \<open>int\<close>.\<close>

definition int_to_text :: "32 word \<Rightarrow> string" where
  "int_to_text v = (if sint v < 0 then CHR ''-'' # dec (nat (- sint v)) else dec (nat (sint v)))"

definition tab :: char where
  "tab = CHR 0x09"

definition Serialize_walker ::
  "'a heap \<Rightarrow> ('a \<Rightarrow> string) \<Rightarrow> 16 word \<Rightarrow> bool \<Rightarrow> addr \<Rightarrow> string \<Rightarrow> (bool \<times> string) option" where
  "Serialize_walker h to_text skipDeep pretty leaf stream =
     (if leaf < length h then
        (let tabDepth0 = (if mDepth (h ! leaf) < 32 then mDepth (h ! leaf) else 32);
             tabDepth = (if mDirection (h ! leaf) = LEFT then tabDepth0 - 1 else tabDepth0);
             stream1 = (if pretty
                        then stream @ replicate (unat tabDepth) tab
                               @ dec (unat (mDepth (h ! leaf))) @ '': ''
                        else stream);
             stream2 = stream1 @ to_text (mValue (h ! leaf)) @ [newline]
         in if uint skipDeep \<noteq> - 1 \<and> uint skipDeep < uint (mDepth (h ! leaf))
            then Some (True, stream2 @ ''...'' @ [newline])
            else Some (False, stream2))
      else None)"

definition Serialize :: "'a heap \<Rightarrow> addr \<Rightarrow> ('a \<Rightarrow> string) \<Rightarrow> string \<Rightarrow> 16 word \<Rightarrow> bool \<Rightarrow> string option" where
  "Serialize h this to_text stream skipDeep pretty =
     Walk h (Serialize_walker h to_text skipDeep pretty) this True stream"

text \<open>The default arguments: \<open>skipDeep = -1\<close>, converted to \<open>uint16_t\<close>, and \<open>pretty = false\<close>.\<close>

definition Serialize_plain :: "'a heap \<Rightarrow> addr \<Rightarrow> ('a \<Rightarrow> string) \<Rightarrow> string \<Rightarrow> string option" where
  "Serialize_plain h this to_text stream = Serialize h this to_text stream (word_of_int (- 1)) False"

section \<open>The statistic\<close>

text \<open>
  The tree of \<open>main.cpp\<close> has \<open>int\<close> values. \<open>mDepth * mValue\<close> is a product of \<open>int\<close>s after
  promotion of the depth; the sum and the count are \<open>int\<close>s too, modelled as 32-bit
  two's complement numbers whose arithmetic wraps.

  The result is \<open>static_cast<double>(weightSum) / static_cast<double>(children)\<close>, a division
  of IEEE-754 binary64 numbers in the default rounding mode. Both \<open>int\<close>s convert without
  loss, and the result is the quotient rounded to the nearest number with a significand of
  53 bits, ties to the even significand. \<open>double_div a b\<close> is that number, as a real:
  \<open>significand_shift\<close> finds the least \<open>s\<close> with \<open>2 ^ 52 \<le> \<bar>a\<bar> * 2 ^ s / \<bar>b\<bar>\<close>, so that the
  scaled quotient lies between \<open>2 ^ 52\<close> and \<open>2 ^ 53\<close>, and \<open>round_half_even\<close> rounds it to an
  integer. The operands are \<open>int\<close>s of 32 bits and the divisor is at least 1
  (\<open>std::max(1, children)\<close>): the quotient is zero, or its absolute value lies between
  \<open>2 ^ - 31\<close> and \<open>2 ^ 31\<close>, so that no shift to the right, no overflow and no subnormal
  number occurs.
\<close>

function significand_shift :: "nat \<Rightarrow> nat \<Rightarrow> nat \<Rightarrow> nat" where
  "significand_shift s n d =
     (if n = 0 \<or> 2 ^ 52 * d \<le> n * 2 ^ s then s else significand_shift (s + 1) n d)"
  by pat_completeness auto
termination
proof (relation "measure (\<lambda>(s, n, d). 2 ^ 52 * d - n * 2 ^ s)")
  show "wf (measure (\<lambda>(s, n, d). 2 ^ 52 * d - n * 2 ^ s))" by simp
next
  fix s n d :: nat
  assume a: "\<not> (n = 0 \<or> 2 ^ 52 * d \<le> n * 2 ^ s)"
  then have pos: "0 < n * 2 ^ s" and less: "n * 2 ^ s < 2 ^ 52 * d" by simp_all
  have "n * 2 ^ (s + 1) = n * 2 ^ s + n * 2 ^ s" by simp
  with pos have "n * 2 ^ s < n * 2 ^ (s + 1)" by linarith
  then have "2 ^ 52 * d - n * 2 ^ (s + 1) < 2 ^ 52 * d - n * 2 ^ s"
    using less by (rule diff_less_mono2)
  then show "((s + 1, n, d), s, n, d) \<in> measure (\<lambda>(s, n, d). 2 ^ 52 * d - n * 2 ^ s)"
    by simp
qed

declare significand_shift.simps [simp del]

definition round_half_even :: "nat \<Rightarrow> nat \<Rightarrow> nat" where
  "round_half_even num den =
     (if 2 * (num mod den) < den then num div den
      else if den < 2 * (num mod den) then num div den + 1
      else if even (num div den) then num div den
      else num div den + 1)"

definition double_div :: "int \<Rightarrow> int \<Rightarrow> real" where
  "double_div a b =
     (let n = nat \<bar>a\<bar>; d = nat \<bar>b\<bar>; s = significand_shift 0 n d
      in (if (a < 0) = (b < 0) then 1 else - 1) * real (round_half_even (n * 2 ^ s) d) / 2 ^ s)"

definition weight :: "(32 word) BinaryLeaf \<Rightarrow> 32 word" where
  "weight n = ucast (mDepth n) * mValue n"

definition ratio_walker :: "(32 word) heap \<Rightarrow> addr \<Rightarrow> 32 word \<times> 32 word \<Rightarrow> (bool \<times> 32 word \<times> 32 word) option" where
  "ratio_walker h leaf s =
     (case s of (children, weightSum) \<Rightarrow>
        if leaf < length h then Some (False, children + 1, weightSum + weight (h ! leaf))
        else None)"

definition GetWeightSumChildrenRatio :: "(32 word) heap \<Rightarrow> addr \<Rightarrow> real option" where
  "GetWeightSumChildrenRatio h this =
     (if this < length h then
        (case Walk h (ratio_walker h) this False (0, weight (h ! this)) of
           None \<Rightarrow> None
         | Some (children, weightSum) \<Rightarrow>
             (let children' = (if sint (1 :: 32 word) < sint children then children else 1)
              in Some (double_div (sint weightSum) (sint children'))))
      else None)"

definition minmax_walker ::
  "(32 word) heap \<Rightarrow> addr \<Rightarrow> real \<times> addr option \<times> real \<times> addr option
     \<Rightarrow> (bool \<times> real \<times> addr option \<times> real \<times> addr option) option" where
  "minmax_walker h leaf s =
     (case s of (outputMin, outputMinHolder, outputMax, outputMaxHolder) \<Rightarrow>
        (case GetWeightSumChildrenRatio h leaf of
           None \<Rightarrow> None
         | Some ratio \<Rightarrow>
             (let (outputMin1, outputMinHolder1) =
                    (if ratio < outputMin then (ratio, Some leaf) else (outputMin, outputMinHolder));
                  (outputMax1, outputMaxHolder1) =
                    (if ratio > outputMax then (ratio, Some leaf) else (outputMax, outputMaxHolder))
              in Some (False, outputMin1, outputMinHolder1, outputMax1, outputMaxHolder1))))"

definition GetMinMaxWeightSumChildrenRatio ::
  "(32 word) heap \<Rightarrow> addr \<Rightarrow> real \<times> addr option \<times> real \<times> addr option
     \<Rightarrow> (real \<times> addr option \<times> real \<times> addr option) option" where
  "GetMinMaxWeightSumChildrenRatio h this s = Walk h (minmax_walker h) this True s"

text \<open>The accumulators as \<open>main\<close> initialises them: \<open>minRatio = 99999999.0\<close>,
  \<open>maxRatio = 0.0\<close> and both subtree pointers null.\<close>

definition main_accumulators :: "real \<times> addr option \<times> real \<times> addr option" where
  "main_accumulators = (99999999, None, 0, None)"

section \<open>The destructor\<close>

text \<open>
  \<open>delete leaf\<close> runs \<open>~BinaryLeaf\<close> on the node and then releases its storage. The
  destructor is \<open>Walk\<close> without the start node, with a callback that deletes the visited
  node, so the callback changes the heap the walk reads and enters the destructor again.
  Here a heap cell is \<open>None\<close> once its storage is released, and reading a released cell
  is the error \<open>UseAfterFree\<close>. The nesting of the calls is bounded by fuel; \<open>None\<close> means
  that the fuel ran out.
\<close>

datatype destroy_error = UseAfterFree addr

fun delete_leaf :: "nat \<Rightarrow> 'a BinaryLeaf option list \<Rightarrow> addr \<Rightarrow> (destroy_error + 'a BinaryLeaf option list) option"
  and destructor_loop :: "nat \<Rightarrow> 'a BinaryLeaf option list \<Rightarrow> addr list \<Rightarrow> (destroy_error + 'a BinaryLeaf option list) option" where
  "delete_leaf 0 h this = None"
| "delete_leaf (Suc fuel) h this =
     (case (if this < length h then h ! this else None) of
        None \<Rightarrow> Some (Inl (UseAfterFree this))
      | Some node \<Rightarrow>
          (let c1 = (case mLeft node of None \<Rightarrow> [] | Some l \<Rightarrow> [l]);
               c2 = (case mRight node of None \<Rightarrow> c1 | Some r \<Rightarrow> c1 @ [r])
           in case destructor_loop fuel h c2 of
                None \<Rightarrow> None
              | Some (Inl e) \<Rightarrow> Some (Inl e)
              | Some (Inr h') \<Rightarrow> Some (Inr (h'[this := None]))))"
| "destructor_loop 0 h collected = None"
| "destructor_loop (Suc fuel) h [] = Some (Inr h)"
| "destructor_loop (Suc fuel) h (leaf # rest) =
     (case (if leaf < length h then h ! leaf else None) of
        None \<Rightarrow> Some (Inl (UseAfterFree leaf))
      | Some node \<Rightarrow>
          (let q1 = (case mRight node of None \<Rightarrow> rest | Some r \<Rightarrow> rest @ [r]);
               q2 = (case mLeft node of None \<Rightarrow> q1 | Some l \<Rightarrow> q1 @ [l])
           in case delete_leaf fuel h leaf of
                None \<Rightarrow> None
              | Some (Inl e) \<Rightarrow> Some (Inl e)
              | Some (Inr h') \<Rightarrow> destructor_loop fuel h' q2))"

section \<open>Reference notions\<close>

text \<open>
  The shape of the tree below a pointer: \<open>Empty\<close> for a null pointer, \<open>Fork a r l\<close> for the
  node at address \<open>a\<close> with the shape \<open>r\<close> below its right pointer and \<open>l\<close> below its left
  pointer. \<open>is_tree h p t\<close> says that the pointer \<open>p\<close> leads to a tree of shape \<open>t\<close> in the heap
  \<open>h\<close>; a heap with a cycle has no shape. \<open>nodes t\<close> lists the addresses of a shape, and
  \<open>bfs\<close> is the breadth-first order that expands the right subtree before the left one.
  \<open>visit_all\<close> calls a callback on the addresses of a list in order, up to the first call
  that asks to stop.
\<close>

datatype shape = Empty | Fork addr shape shape

fun is_tree :: "'a heap \<Rightarrow> addr option \<Rightarrow> shape \<Rightarrow> bool" where
  "is_tree h p Empty = (p = None)"
| "is_tree h p (Fork a r l) =
     (p = Some a \<and> a < length h \<and> is_tree h (mRight (h ! a)) r \<and> is_tree h (mLeft (h ! a)) l)"

fun nodes :: "shape \<Rightarrow> addr list" where
  "nodes Empty = []"
| "nodes (Fork a r l) = a # nodes r @ nodes l"

fun present :: "shape \<Rightarrow> shape list" where
  "present Empty = []"
| "present (Fork a r l) = [Fork a r l]"

lemma present_measure: "sum_list (map (\<lambda>t. 2 * size t + 1) (present t)) \<le> 2 * size t + 1"
  by (cases t) simp_all

function bfs :: "shape list \<Rightarrow> addr list" where
  "bfs [] = []"
| "bfs (Empty # ts) = bfs ts"
| "bfs (Fork a r l # ts) = a # bfs (ts @ present r @ present l)"
  by pat_completeness auto
termination
proof (relation "measure (\<lambda>ts. sum_list (map (\<lambda>t. 2 * size t + 1) ts))")
  show "wf (measure (\<lambda>ts. sum_list (map (\<lambda>t. 2 * size t + 1) ts)))" by simp
next
  fix ts show "(ts, Empty # ts) \<in> measure (\<lambda>ts. sum_list (map (\<lambda>t. 2 * size t + 1) ts))" by simp
next
  fix a r l ts
  show "(ts @ present r @ present l, Fork a r l # ts) \<in> measure (\<lambda>ts. sum_list (map (\<lambda>t. 2 * size t + 1) ts))"
    using present_measure [of r] present_measure [of l] by simp
qed

fun visit_all :: "(addr \<Rightarrow> 's \<Rightarrow> (bool \<times> 's) option) \<Rightarrow> addr list \<Rightarrow> 's \<Rightarrow> 's option" where
  "visit_all walker [] s = Some s"
| "visit_all walker (a # as) s =
     (case walker a s of
        None \<Rightarrow> None
      | Some (shouldStop, s') \<Rightarrow> if shouldStop then Some s' else visit_all walker as s')"


text \<open>
  The layout that filling the pending slots in queue order produces: the node created
  number \<open>k\<close> (from 0) has the address \<open>k\<close>, its right child is the node \<open>2 * k + 1\<close> and
  its left child the node \<open>2 * k + 2\<close>, where those exist. \<open>slot_level k\<close> is the number of
  steps from node \<open>k\<close> up to the root.
\<close>

function slot_level :: "nat \<Rightarrow> nat" where
  "slot_level k = (if k = 0 then 0 else slot_level ((k - 1) div 2) + 1)"
  by pat_completeness auto
termination
  by (relation "measure id") auto

declare slot_level.simps [simp del]

definition slot_direction :: "nat \<Rightarrow> treedir_t" where
  "slot_direction k = (if k = 0 then ROOT else if odd k then RIGHT else LEFT)"

definition bfs_leaf :: "'a list \<Rightarrow> nat \<Rightarrow> 'a BinaryLeaf" where
  "bfs_leaf vs k =
     \<lparr>mValue = vs ! k, mDepth = word_of_nat (slot_level k), mDirection = slot_direction k,
      mRight = (if 2 * k + 1 < length vs then Some (2 * k + 1) else None),
      mLeft = (if 2 * k + 2 < length vs then Some (2 * k + 2) else None)\<rparr>"

definition bfs_heap :: "'a list \<Rightarrow> 'a heap" where
  "bfs_heap vs = map (bfs_leaf vs) [0..<length vs]"

definition slot_request :: "nat \<Rightarrow> leaf_generation_data_t" where
  "slot_request k =
     (if k = 0 then \<lparr>output = OutputVar, parent = None, direction = ROOT\<rparr>
      else \<lparr>output = (if odd k then RightField ((k - 1) div 2) else LeftField ((k - 1) div 2)),
            parent = Some ((k - 1) div 2), direction = slot_direction k\<rparr>)"

definition pending :: "nat \<Rightarrow> leaf_generation_data_t list" where
  "pending m = map slot_request [m..<2 * m + 1]"


text \<open>
  The line that \<open>Serialize\<close> writes for a node, and the test that ends the walk.
\<close>

definition tab_depth :: "'a BinaryLeaf \<Rightarrow> 16 word" where
  "tab_depth n =
     (if mDirection n = LEFT then (if mDepth n < 32 then mDepth n else 32) - 1
      else (if mDepth n < 32 then mDepth n else 32))"

definition node_line :: "'a heap \<Rightarrow> ('a \<Rightarrow> string) \<Rightarrow> bool \<Rightarrow> addr \<Rightarrow> string" where
  "node_line h to_text pretty a =
     (if pretty then replicate (unat (tab_depth (h ! a))) tab @ dec (unat (mDepth (h ! a))) @ '': ''
      else [])
     @ to_text (mValue (h ! a)) @ [newline]"

definition too_deep :: "'a heap \<Rightarrow> 16 word \<Rightarrow> addr \<Rightarrow> bool" where
  "too_deep h skipDeep a = (uint skipDeep < uint (mDepth (h ! a)))"


text \<open>
  The number of nodes that \<open>GenerateTree\<close> creates for a budget, and the values it draws.
\<close>

definition node_budget :: "32 word \<Rightarrow> nat" where
  "node_budget maxLeaves = (if sint maxLeaves \<le> 1 then 1 else nat (sint maxLeaves))"

definition random_values :: "(nat \<Rightarrow> nat) \<Rightarrow> nat \<Rightarrow> (32 word) list" where
  "random_values rand k = map (\<lambda>i. word_of_nat (rand i mod 255)) [0..<k]"


text \<open>The weight of a node as a mathematical integer: the stored depth times the value.\<close>

definition exact_weight :: "(32 word) heap \<Rightarrow> addr \<Rightarrow> int" where
  "exact_weight h a = int (unat (mDepth (h ! a))) * sint (mValue (h ! a))"


text \<open>
  Example trees. \<open>tree4\<close> is what four lines or a budget of four build; \<open>shape4\<close> is its
  shape, and \<open>tree_5_3_8\<close> what the lines 5, 3, 8 build. \<open>left_only\<close> is a root whose only child was attached with \<open>SetLeftChild\<close>, and
  \<open>right_only\<close> the same two values with the child on the right. \<open>overflow_tree\<close> has
  values whose weights do not sum within an \<open>int\<close>. \<open>tree3\<close> is a root with two children
  and \<open>heavy_pair\<close> a root with one child of value 200000000. \<open>collect\<close> is a callback that records
  the visited addresses and never stops the walk. \<open>text_id\<close> is the parser of a tree of
  strings, whose text is the string itself.
\<close>

definition tree4 :: "(32 word) heap" where
  "tree4 = [\<lparr>mValue = 1, mDepth = 0, mDirection = ROOT, mRight = Some 1, mLeft = Some 2\<rparr>,
           \<lparr>mValue = 2, mDepth = 1, mDirection = RIGHT, mRight = Some 3, mLeft = None\<rparr>,
           \<lparr>mValue = 3, mDepth = 1, mDirection = LEFT, mRight = None, mLeft = None\<rparr>,
           \<lparr>mValue = 4, mDepth = 2, mDirection = RIGHT, mRight = None, mLeft = None\<rparr>]"

definition tree_5_3_8 :: "(32 word) heap" where
  "tree_5_3_8 = [\<lparr>mValue = 5, mDepth = 0, mDirection = ROOT, mRight = Some 1, mLeft = Some 2\<rparr>,
                \<lparr>mValue = 3, mDepth = 1, mDirection = RIGHT, mRight = None, mLeft = None\<rparr>,
                \<lparr>mValue = 8, mDepth = 1, mDirection = LEFT, mRight = None, mLeft = None\<rparr>]"

definition shape4 :: shape where
  "shape4 = Fork 0 (Fork 1 (Fork 3 Empty Empty) Empty) (Fork 2 Empty Empty)"

definition single_node :: "(32 word) heap" where
  "single_node = [\<lparr>mValue = 7, mDepth = 0, mDirection = ROOT, mRight = None, mLeft = None\<rparr>]"



definition overflow_tree :: "(32 word) heap" where
  "overflow_tree =
     [\<lparr>mValue = 0, mDepth = 0, mDirection = ROOT, mRight = Some 1, mLeft = Some 2\<rparr>,
      \<lparr>mValue = 2147483647, mDepth = 1, mDirection = RIGHT, mRight = None, mLeft = None\<rparr>,
      \<lparr>mValue = 1, mDepth = 1, mDirection = LEFT, mRight = None, mLeft = None\<rparr>]"

definition tree3 :: "(32 word) heap" where
  "tree3 = [\<lparr>mValue = 1, mDepth = 0, mDirection = ROOT, mRight = Some 1, mLeft = Some 2\<rparr>,
           \<lparr>mValue = 2, mDepth = 1, mDirection = RIGHT, mRight = None, mLeft = None\<rparr>,
           \<lparr>mValue = 3, mDepth = 1, mDirection = LEFT, mRight = None, mLeft = None\<rparr>]"

definition heavy_pair :: "(32 word) heap" where
  "heavy_pair = [\<lparr>mValue = 0, mDepth = 0, mDirection = ROOT, mRight = Some 1, mLeft = None\<rparr>,
                \<lparr>mValue = 200000000, mDepth = 1, mDirection = RIGHT, mRight = None, mLeft = None\<rparr>]"

definition collect :: "addr \<Rightarrow> addr list \<Rightarrow> (bool \<times> addr list) option" where
  "collect leaf visited = Some (False, visited @ [leaf])"




section \<open>The walk follows the breadth-first order\<close>

lemma Walk_loop_Nil: "Walk_loop h walker [] s = Some s"
  by (subst Walk_loop.simps) simp

lemma Walk_loop_Cons:
  "leaf < length h \<Longrightarrow>
   Walk_loop h walker (leaf # rest) s =
     (case walker leaf s of
        None \<Rightarrow> None
      | Some (shouldStop, s') \<Rightarrow>
          if shouldStop then Some s'
          else Walk_loop h walker
                 (rest @ (case mRight (h ! leaf) of None \<Rightarrow> [] | Some r \<Rightarrow> [r])
                       @ (case mLeft (h ! leaf) of None \<Rightarrow> [] | Some l \<Rightarrow> [l])) s')"
  by (subst Walk_loop.simps) (simp split: option.splits)

lemma child_queue:
  "is_tree h p t \<Longrightarrow>
   list_all2 (\<lambda>a t. is_tree h (Some a) t) (case p of None \<Rightarrow> [] | Some c \<Rightarrow> [c]) (present t)"
  by (cases t) auto

lemma Walk_loop_bfs:
  "list_all2 (\<lambda>a t. is_tree h (Some a) t) q ts \<Longrightarrow>
   Walk_loop h walker q s = visit_all walker (bfs ts) s"
proof (induction ts arbitrary: q s rule: bfs.induct)
  case 1
  then show ?case by (simp add: Walk_loop_Nil)
next
  case (2 ts)
  then show ?case by (auto simp: list_all2_Cons2)
next
  case (3 a r l ts)
  from "3.prems" obtain q' where q: "q = a # q'" and a: "a < length h"
    and r: "is_tree h (mRight (h ! a)) r" and l: "is_tree h (mLeft (h ! a)) l"
    and q': "list_all2 (\<lambda>a t. is_tree h (Some a) t) q' ts"
    by (auto simp: list_all2_Cons2)
  let ?q2 = "q' @ (case mRight (h ! a) of None \<Rightarrow> [] | Some r \<Rightarrow> [r])
                @ (case mLeft (h ! a) of None \<Rightarrow> [] | Some l \<Rightarrow> [l])"
  have rel: "list_all2 (\<lambda>a t. is_tree h (Some a) t) ?q2 (ts @ present r @ present l)"
    using q' child_queue [OF r] child_queue [OF l] by (intro list_all2_appendI)
  show ?case
    unfolding q using a "3.IH" [OF rel] by (simp add: Walk_loop_Cons split: option.splits)
qed


section \<open>Filling the pending slots\<close>

lemma length_bfs_heap [simp]: "length (bfs_heap vs) = length vs"
  by (simp add: bfs_heap_def)

lemma nth_bfs_heap [simp]: "k < length vs \<Longrightarrow> bfs_heap vs ! k = bfs_leaf vs k"
  by (simp add: bfs_heap_def)

lemma slot_level_0 [simp]: "slot_level 0 = 0"
  by (simp add: slot_level.simps)

lemma slot_level_pos: "0 < k \<Longrightarrow> slot_level k = slot_level ((k - 1) div 2) + 1"
  by (subst slot_level.simps) simp

lemma pending_step:
  "pending m = slot_request m # map slot_request [Suc m..<2 * m + 1]"
  "map slot_request [Suc m..<2 * m + 1]
     @ [\<lparr>output = RightField m, parent = Some m, direction = RIGHT\<rparr>,
        \<lparr>output = LeftField m, parent = Some m, direction = LEFT\<rparr>] = pending (Suc m)"
proof -
  have "[m..<2 * m + 1] = m # [Suc m..<2 * m + 1]"
    by (rule upt_conv_Cons) simp
  then show "pending m = slot_request m # map slot_request [Suc m..<2 * m + 1]"
    by (simp only: pending_def list.map)
  have "[Suc m..<2 * Suc m + 1] = [Suc m..<2 * m + 1] @ [2 * m + 1, 2 * m + 2]"
    by simp
  then show "map slot_request [Suc m..<2 * m + 1]
     @ [\<lparr>output = RightField m, parent = Some m, direction = RIGHT\<rparr>,
        \<lparr>output = LeftField m, parent = Some m, direction = LEFT\<rparr>] = pending (Suc m)"
    by (simp add: pending_def slot_request_def slot_direction_def)
qed

lemma bfs_heap_Nil [simp]: "bfs_heap [] = []"
  by (simp add: bfs_heap_def)

lemma bfs_heap_snoc_root: "bfs_heap [v] = [BinaryLeaf_new v]"
  by (simp add: bfs_heap_def bfs_leaf_def BinaryLeaf_new_def slot_direction_def)

lemma create_leaf_root:
  "create_leaf ([], out) (slot_request 0) v = Inr (0, bfs_heap [v], Some 0)"
  by (simp add: create_leaf_def slot_request_def alloc_def store_slot_def bfs_heap_snoc_root)



lemma bfs_leaf_other:
  assumes "i < length vs" "2 * i + 1 \<noteq> length vs" "2 * i + 2 \<noteq> length vs"
  shows "bfs_leaf (vs @ [v]) i = bfs_leaf vs i"
  using assms by (auto simp: bfs_leaf_def nth_append)

lemma SetRightChild_bfs_heap:
  assumes m: "length vs = 2 * p + 1"
  shows "SetRightChild ((bfs_heap vs @ [BinaryLeaf_new v])[p := ((bfs_heap vs @ [BinaryLeaf_new v]) ! p)\<lparr>mRight := Some (length vs)\<rparr>])
           p (length vs) = Inr (bfs_heap (vs @ [v]))"
proof -
  have lvl: "slot_level (Suc (2 * p)) = slot_level p + 1"
    by (simp add: slot_level_pos)
  have other: "bfs_leaf (vs @ [v]) i = bfs_leaf vs i" if "i \<noteq> p" "i < length vs" for i
  proof (rule bfs_leaf_other)
    show "i < length vs" by (rule that)
    show "2 * i + 1 \<noteq> length vs" using that m by simp
    show "2 * i + 2 \<noteq> length vs" using m by presburger
  qed
  show ?thesis
    unfolding SetRightChild_def Let_def
    apply (simp add: m)
    apply (rule nth_equalityI)
     apply (simp add: m)
    subgoal for i
      apply (cases "i = 2 * p + 1")
       apply (simp add: m nth_append bfs_leaf_def BinaryLeaf_new_def slot_direction_def RIGHT_def lvl)
      apply (cases "i = p")
       apply (simp add: m nth_append bfs_leaf_def)
      using other [of i] apply (simp add: m nth_append)
      done
    done
qed

lemma SetLeftChild_bfs_heap:
  assumes m: "length vs = 2 * p + 2"
  shows "SetLeftChild ((bfs_heap vs @ [BinaryLeaf_new v])[p := ((bfs_heap vs @ [BinaryLeaf_new v]) ! p)\<lparr>mLeft := Some (length vs)\<rparr>])
           p (length vs) = Inr (bfs_heap (vs @ [v]))"
proof -
  have lvl: "slot_level (Suc (Suc (2 * p))) = slot_level p + 1"
    by (simp add: slot_level_pos)
  have other: "bfs_leaf (vs @ [v]) i = bfs_leaf vs i" if "i \<noteq> p" "i < length vs" for i
  proof (rule bfs_leaf_other)
    show "i < length vs" by (rule that)
    show "2 * i + 1 \<noteq> length vs" using m by presburger
    show "2 * i + 2 \<noteq> length vs" using that m by simp
  qed
  show ?thesis
    unfolding SetLeftChild_def Let_def
    apply (simp add: m)
    apply (rule nth_equalityI)
     apply (simp add: m)
    subgoal for i
      apply (cases "i = 2 * p + 2")
       apply (simp add: m nth_append bfs_leaf_def BinaryLeaf_new_def slot_direction_def LEFT_def lvl)
      apply (cases "i = p")
       apply (simp add: m nth_append bfs_leaf_def)
      using other [of i] apply (simp add: m nth_append)
      done
    done
qed

lemma create_leaf_bfs_heap:
  "create_leaf (bfs_heap vs, if vs = [] then out else Some 0) (slot_request (length vs)) v
     = Inr (length vs, bfs_heap (vs @ [v]), Some 0)"
proof (cases "vs = []")
  case True
  then show ?thesis using create_leaf_root [of out v] by simp
next
  case False
  then have pos: "length vs \<noteq> 0" by simp
  show ?thesis
  proof (cases "odd (length vs)")
    case True
    define p where "p = (length vs - 1) div 2"
    have m: "length vs = 2 * p + 1"
      using True unfolding p_def by presburger
    have req: "slot_request (length vs) = \<lparr>output = RightField p, parent = Some p, direction = RIGHT\<rparr>"
      using True pos by (simp add: slot_request_def slot_direction_def p_def)
    have p: "p < Suc (length vs)" "RIGHT \<noteq> LEFT" using m by (simp_all add: RIGHT_def LEFT_def)
    show ?thesis
      unfolding req create_leaf_def alloc_def store_slot_def
      using False p SetRightChild_bfs_heap [OF m, of v] by simp
  next
    case even: False
    define p where "p = (length vs - 1) div 2"
    have m: "length vs = 2 * p + 2"
      using even pos unfolding p_def by presburger
    have req: "slot_request (length vs) = \<lparr>output = LeftField p, parent = Some p, direction = LEFT\<rparr>"
      using even pos by (simp add: slot_request_def slot_direction_def p_def)
    have p: "p < Suc (length vs)" using m by simp
    show ?thesis
      unfolding req create_leaf_def alloc_def store_slot_def
      using False p SetLeftChild_bfs_heap [OF m, of v] by simp
  qed
qed


lemma Deserialize_body_front:
  assumes "create_leaf (h, out) leafData v = Inr (p, h', out')" and "vd line = Inr v"
  shows "Deserialize_body vd (h, out, leafData # rest) line =
           Inr (h', out', rest @ [\<lparr>output = RightField p, parent = Some p, direction = RIGHT\<rparr>,
                                  \<lparr>output = LeftField p, parent = Some p, direction = LEFT\<rparr>])"
  using assms by (simp add: Deserialize_body_def GetRightChild_ref_def GetLeftChild_ref_def)

lemma pending_body:
  "Deserialize_body vd (bfs_heap vs, (if vs = [] then out else Some 0), pending (length vs)) line =
     (case vd line of
        Inl e \<Rightarrow> Inl e
      | Inr v \<Rightarrow> Inr (bfs_heap (vs @ [v]), Some 0, pending (length (vs @ [v]))))"
proof (cases "vd line")
  case (Inl e)
  then show ?thesis by (simp add: Deserialize_body_def)
next
  case (Inr v)
  have "Deserialize_body vd (bfs_heap vs, (if vs = [] then out else Some 0),
            slot_request (length vs) # map slot_request [Suc (length vs)..<2 * length vs + 1]) line =
          Inr (bfs_heap (vs @ [v]), Some 0,
               map slot_request [Suc (length vs)..<2 * length vs + 1]
                 @ [\<lparr>output = RightField (length vs), parent = Some (length vs), direction = RIGHT\<rparr>,
                    \<lparr>output = LeftField (length vs), parent = Some (length vs), direction = LEFT\<rparr>])"
    by (rule Deserialize_body_front [where vd = vd and line = line, OF create_leaf_bfs_heap [of vs out v] Inr])
  then have "Deserialize_body vd (bfs_heap vs, (if vs = [] then out else Some 0), pending (length vs)) line =
          Inr (bfs_heap (vs @ [v]), Some 0, pending (Suc (length vs)))"
    by (simp only: pending_step)
  then show ?thesis using Inr by simp
qed

lemma pending_nonempty: "0 < length (pending m)"
  by (simp add: pending_def)

lemma Deserialize_loop_bfs_heap:
  assumes "st = (bfs_heap vs, (if vs = [] then out else Some 0), pending (length vs))"
    and "Deserialize_loop vd st s cl = Inr (h, r)"
  shows "\<exists>ws. h = bfs_heap (vs @ ws) \<and> r = (if vs @ ws = [] then out else Some 0)"
  using assms
proof (induction vd st s cl arbitrary: vs rule: Deserialize_loop.induct)
  case (1 vd st s cl)
  show ?case
  proof (cases "good s")
    case False
    with "1.prems" have "h = bfs_heap vs" "r = (if vs = [] then out else Some 0)"
      by (simp_all add: Deserialize_loop.simps)
    then show ?thesis by (intro exI [of _ "[]"]) simp
  next
    case True
    obtain cl' s' where g: "getline s cl = (cl', s')"
      by (cases "getline s cl")
    have cond: "good s \<and> 0 < length (snd (snd st))"
      using True "1.prems"(1) pending_nonempty by simp
    show ?thesis
    proof (cases "length cl' \<le> 0")
      case blank: True
      have "Deserialize_loop vd st s' cl' = Inr (h, r)"
        using "1.prems"(2) cond g blank by (subst (asm) Deserialize_loop.simps) simp
      from "1.IH"(1) [OF cond g [symmetric] blank "1.prems"(1) this] show ?thesis .
    next
      case line: False
      have step: "(case Deserialize_body vd st cl' of Inl e \<Rightarrow> Inl e
                   | Inr st' \<Rightarrow> Deserialize_loop vd st' s' cl') = Inr (h, r)"
        using "1.prems"(2) cond g line by (subst (asm) Deserialize_loop.simps) simp
      then obtain v where v: "vd cl' = Inr v"
        unfolding "1.prems"(1) pending_body by (cases "vd cl'") simp_all
      have body: "Deserialize_body vd st cl' = Inr (bfs_heap (vs @ [v]), Some 0, pending (length (vs @ [v])))"
        unfolding "1.prems"(1) pending_body using v by simp
      have st': "(bfs_heap (vs @ [v]), Some 0, pending (length (vs @ [v])))
                 = (bfs_heap (vs @ [v]), (if vs @ [v] = [] then out else Some 0), pending (length (vs @ [v])))"
        by simp
      have "Deserialize_loop vd (bfs_heap (vs @ [v]), Some 0, pending (length (vs @ [v]))) s' cl' = Inr (h, r)"
        using step body by simp
      from "1.IH"(2) [OF cond g [symmetric] line body st' this]
      obtain ws where "h = bfs_heap ((vs @ [v]) @ ws)" "r = (if (vs @ [v]) @ ws = [] then out else Some 0)"
        by blast
      then show ?thesis by (intro exI [of _ "v # ws"]) simp
    qed
  qed
qed

lemma bfs_heap_children:
  assumes "i < length vs"
  shows "mRight (bfs_heap vs ! i) = (if 2 * i + 1 < length vs then Some (2 * i + 1) else None)"
    and "mLeft (bfs_heap vs ! i) = (if 2 * i + 2 < length vs then Some (2 * i + 2) else None)"
  using assms by (simp_all add: bfs_leaf_def)

lemma frontier_step:
  assumes "i < m"
  shows "[i..<min m (2 * i + 1)] = i # [Suc i..<min m (2 * i + 1)]"
    and "[Suc i..<min m (2 * i + 1)]
           @ (case (if 2 * i + 1 < m then Some (2 * i + 1) else None) of None \<Rightarrow> [] | Some r \<Rightarrow> [r])
           @ (case (if 2 * i + 2 < m then Some (2 * i + 2) else None) of None \<Rightarrow> [] | Some l \<Rightarrow> [l])
         = [Suc i..<min m (2 * Suc i + 1)]"
proof -
  show "[i..<min m (2 * i + 1)] = i # [Suc i..<min m (2 * i + 1)]"
    by (rule upt_conv_Cons) (use assms in simp)
  consider "2 * i + 2 < m" | "2 * i + 2 = m" | "m \<le> 2 * i + 1"
    by linarith
  then show "[Suc i..<min m (2 * i + 1)]
           @ (case (if 2 * i + 1 < m then Some (2 * i + 1) else None) of None \<Rightarrow> [] | Some r \<Rightarrow> [r])
           @ (case (if 2 * i + 2 < m then Some (2 * i + 2) else None) of None \<Rightarrow> [] | Some l \<Rightarrow> [l])
         = [Suc i..<min m (2 * Suc i + 1)]"
  proof cases
    case 1
    then have "min m (2 * i + 1) = 2 * i + 1" "min m (2 * Suc i + 1) = Suc (Suc (Suc (2 * i)))"
      by simp_all
    with 1 show ?thesis by simp
  next
    case 2
    then have m: "m = Suc (Suc (2 * i))" by simp
    show ?thesis unfolding m by simp
  next
    case 3
    then have "min m (2 * i + 1) = m" "min m (2 * Suc i + 1) = m"
      by simp_all
    with 3 show ?thesis by simp
  qed
qed

lemma Walk_loop_bfs_heap:
  assumes "i \<le> length vs"
  shows "Walk_loop (bfs_heap vs) walker [i..<min (length vs) (2 * i + 1)] s
           = visit_all walker [i..<length vs] s"
  using assms
proof (induction "length vs - i" arbitrary: i s)
  case 0
  then have "i = length vs" by simp
  then show ?case by (simp add: Walk_loop_Nil)
next
  case (Suc k)
  then have i: "i < length vs" by simp
  have IH: "Walk_loop (bfs_heap vs) walker [Suc i..<min (length vs) (2 * Suc i + 1)] s'
             = visit_all walker [Suc i..<length vs] s'" for s'
    using Suc.hyps(1) [of "Suc i" s'] Suc.hyps(2) i by simp
  have v: "[i..<length vs] = i # [Suc i..<length vs]"
    by (rule upt_conv_Cons) (rule i)
  show ?case
    unfolding frontier_step(1) [OF i] v
    using i
    by (simp only: Walk_loop_Cons length_bfs_heap bfs_heap_children frontier_step(2) [OF i] IH visit_all.simps)
qed

lemma Walk_bfs_heap_root:
  assumes "vs \<noteq> []"
  shows "Walk (bfs_heap vs) walker 0 True s = visit_all walker [0..<length vs] s"
proof -
  have "[0..<min (length vs) (2 * 0 + 1)] = [0]"
    using assms by (cases vs) simp_all
  then show ?thesis
    using Walk_loop_bfs_heap [of 0 vs walker s] by (simp add: Walk_def)
qed



section \<open>What Serialize writes\<close>

lemma uint_not_minus_one: "uint (x :: 16 word) \<noteq> - 1"
proof -
  have "0 \<le> uint x" by simp
  then show ?thesis by linarith
qed

lemma Serialize_walker_eq:
  assumes "a < length h"
  shows "Serialize_walker h to_text skipDeep pretty a stream =
           Some (too_deep h skipDeep a,
                 stream @ node_line h to_text pretty a
                   @ (if too_deep h skipDeep a then ''...'' @ [newline] else []))"
  using assms
  by (simp add: Serialize_walker_def node_line_def too_deep_def tab_depth_def Let_def uint_not_minus_one)

lemma visit_all_Serialize_walker:
  assumes "\<forall>a \<in> set as. a < length h"
  shows "visit_all (Serialize_walker h to_text skipDeep pretty) as stream =
           Some (stream
                 @ concat (map (node_line h to_text pretty) (takeWhile (\<lambda>a. \<not> too_deep h skipDeep a) as))
                 @ (case dropWhile (\<lambda>a. \<not> too_deep h skipDeep a) as of
                      [] \<Rightarrow> []
                    | x # rest \<Rightarrow> node_line h to_text pretty x @ ''...'' @ [newline]))"
  using assms
proof (induction as arbitrary: stream)
  case Nil
  then show ?case by simp
next
  case (Cons a as)
  then have a: "a < length h" and as: "\<forall>a \<in> set as. a < length h"
    by simp_all
  show ?case
  proof (cases "too_deep h skipDeep a")
    case True
    then show ?thesis by (simp add: Serialize_walker_eq [OF a])
  next
    case False
    then show ?thesis by (simp add: Serialize_walker_eq [OF a] Cons.IH [OF as])
  qed
qed

lemma never_too_deep: "\<not> too_deep h (- 1) a"
proof -
  have "mDepth (h ! a) \<le> (- 1 :: 16 word)"
    by simp
  then have "uint (mDepth (h ! a)) \<le> uint (- 1 :: 16 word)"
    by (simp only: word_le_def)
  then show ?thesis by (simp add: too_deep_def)
qed

lemma visit_all_Serialize_walker_unlimited:
  assumes "\<forall>a \<in> set as. a < length h"
  shows "visit_all (Serialize_walker h to_text (- 1) pretty) as stream =
           Some (stream @ concat (map (node_line h to_text pretty) as))"
proof -
  have tw: "takeWhile (\<lambda>a. \<not> too_deep h (- 1) a) as = as"
    by (simp add: never_too_deep)
  have dw: "dropWhile (\<lambda>a. \<not> too_deep h (- 1) a) as = []"
    by (simp add: never_too_deep)
  show ?thesis
    by (simp only: visit_all_Serialize_walker [OF assms] tw dw list.case append_Nil2)
qed





section \<open>Reading serialized lines back\<close>








section \<open>Decimal text of an int\<close>












section \<open>What GenerateTree builds\<close>

lemma length_random_values [simp]: "length (random_values rand k) = k"
  by (simp add: random_values_def)

lemma random_values_Suc:
  "random_values rand (Suc k) = random_values rand k @ [word_of_nat (rand k mod 255)]"
  by (simp add: random_values_def)

lemma random_values_Nil_iff [simp]: "random_values rand k = [] \<longleftrightarrow> k = 0"
  by (simp add: random_values_def)

lemma sint_of_nat_small:
  assumes "k < 2 ^ 31"
  shows "sint (word_of_nat k :: 32 word) = int k"
proof -
  have "int k < 2 ^ 31" using assms by (simp add: of_nat_less_numeral_power_cancel_iff)
  then show ?thesis
    by (simp add: signed_of_nat signed_take_bit_int_eq_self)
qed

lemma node_budget_bound: "node_budget maxLeaves < 2 ^ 31" "0 < node_budget maxLeaves"
proof -
  have "sint maxLeaves < 2 ^ 31"
    using sint_lt [of maxLeaves] by simp
  then show "node_budget maxLeaves < 2 ^ 31"
    by (auto simp: node_budget_def nat_less_iff)
  show "0 < node_budget maxLeaves"
    by (simp add: node_budget_def)
qed

lemma budget_reached:
  assumes "m < node_budget maxLeaves"
  shows "sint maxLeaves \<le> sint (word_of_nat m + 1 :: 32 word) \<longleftrightarrow> node_budget maxLeaves \<le> Suc m"
proof -
  have "Suc m < 2 ^ 31"
    using assms node_budget_bound(1) [of maxLeaves] by simp
  then have "sint (word_of_nat (Suc m) :: 32 word) = int (Suc m)"
    by (rule sint_of_nat_small)
  then have s: "sint (word_of_nat m + 1 :: 32 word) = int m + 1"
    by (simp add: ac_simps)
  show ?thesis
    unfolding s using assms by (auto simp: node_budget_def split: if_splits)
qed

lemma GenerateTree_loop_step:
  assumes "create_leaf (h, result) leafData (word_of_nat (rand calls mod 255)) = Inr (p, h', result')"
  shows "GenerateTree_loop rand maxLeaves (h, result, leafData # rest, leavesGenerated, calls) =
           (if sint maxLeaves \<le> sint (leavesGenerated + 1) then Inr (h', result', calls + 1)
            else GenerateTree_loop rand maxLeaves
                   (h', result',
                    rest @ [\<lparr>output = RightField p, parent = Some p, direction = RIGHT\<rparr>,
                            \<lparr>output = LeftField p, parent = Some p, direction = LEFT\<rparr>],
                    leavesGenerated + 1, calls + 1))"
  using assms
  by (subst GenerateTree_loop.simps) (simp add: GetRightChild_ref_def GetLeftChild_ref_def)

lemma GenerateTree_loop_bfs_heap:
  assumes "m < node_budget maxLeaves"
  shows "GenerateTree_loop rand maxLeaves
           (bfs_heap (random_values rand m), (if m = 0 then None else Some 0), pending m, word_of_nat m, m)
         = Inr (bfs_heap (random_values rand (node_budget maxLeaves)), Some 0, node_budget maxLeaves)"
  using assms
proof (induction "node_budget maxLeaves - m" arbitrary: m)
  case 0
  then show ?case by simp
next
  case (Suc k)
  have cl: "create_leaf (bfs_heap (random_values rand m), (if m = 0 then None else Some 0))
              (slot_request m) (word_of_nat (rand m mod 255))
            = Inr (m, bfs_heap (random_values rand (Suc m)), Some 0)"
    using create_leaf_bfs_heap [of "random_values rand m" None "word_of_nat (rand m mod 255)"]
    by (simp add: random_values_Suc)
  have step: "GenerateTree_loop rand maxLeaves
           (bfs_heap (random_values rand m), (if m = 0 then None else Some 0), pending m, word_of_nat m, m)
         = (if node_budget maxLeaves \<le> Suc m then Inr (bfs_heap (random_values rand (Suc m)), Some 0, Suc m)
            else GenerateTree_loop rand maxLeaves
                   (bfs_heap (random_values rand (Suc m)), Some 0, pending (Suc m), word_of_nat (Suc m), Suc m))"
    unfolding pending_step(1) [of m]
    by (simp only: GenerateTree_loop_step [where rand = rand and calls = m, OF cl] budget_reached [OF Suc.prems] pending_step(2))
       (simp add: ac_simps)
  show ?case
  proof (cases "node_budget maxLeaves \<le> Suc m")
    case True
    with Suc.prems have "node_budget maxLeaves = Suc m" by simp
    with step show ?thesis by simp
  next
    case False
    then have "Suc m < node_budget maxLeaves" by simp
    moreover have "k = node_budget maxLeaves - Suc m" using Suc.hyps(2) by simp
    ultimately have "GenerateTree_loop rand maxLeaves
           (bfs_heap (random_values rand (Suc m)), (if Suc m = 0 then None else Some 0), pending (Suc m),
            word_of_nat (Suc m), Suc m)
         = Inr (bfs_heap (random_values rand (node_budget maxLeaves)), Some 0, node_budget maxLeaves)"
      by (rule Suc.hyps(1) [rotated])
    with step False show ?thesis by simp
  qed
qed

lemma GenerateTree_bfs_heap:
  "GenerateTree rand maxLeaves
     = Inr (bfs_heap (random_values rand (node_budget maxLeaves)), Some 0, node_budget maxLeaves)"
  using GenerateTree_loop_bfs_heap [OF node_budget_bound(2), where rand = rand and maxLeaves = maxLeaves]
  by (simp add: GenerateTree_def pending_def slot_request_def random_values_def)

lemma slot_level_bound: "2 ^ slot_level k \<le> k + 1"
proof (induction k rule: less_induct)
  case (less k)
  show ?case
  proof (cases "k = 0")
    case True
    then show ?thesis by simp
  next
    case False
    then have p: "(k - 1) div 2 < k" by simp
    have "(2::nat) ^ slot_level k = 2 * 2 ^ slot_level ((k - 1) div 2)"
      using False by (simp add: slot_level_pos)
    also have "\<dots> \<le> 2 * ((k - 1) div 2 + 1)"
      using less.IH [OF p] by simp
    also have "\<dots> \<le> k + 1"
      using False by simp
    finally show ?thesis .
  qed
qed

lemma slot_level_small:
  assumes "k < 2 ^ 31"
  shows "slot_level k < 32"
proof (rule ccontr)
  assume "\<not> slot_level k < 32"
  then have "32 \<le> slot_level k" by simp
  then have "(2::nat) ^ 32 \<le> 2 ^ slot_level k"
    by (rule power_increasing) simp
  also have "\<dots> \<le> k + 1" by (rule slot_level_bound)
  finally show False using assms by simp
qed

lemma unat_slot_level:
  assumes "k < 2 ^ 31"
  shows "unat (word_of_nat (slot_level k) :: 16 word) = slot_level k"
  using slot_level_small [OF assms] by (simp add: unat_of_nat)

lemma bfs_heap_child_depth:
  assumes "length vs < 2 ^ 31" and "p < length vs"
    and "mRight (bfs_heap vs ! p) = Some c \<or> mLeft (bfs_heap vs ! p) = Some c"
  shows "c < length vs \<and> unat (mDepth (bfs_heap vs ! c)) = unat (mDepth (bfs_heap vs ! p)) + 1"
proof -
  from assms(2,3) have c: "c < length vs" "c = 2 * p + 1 \<or> c = 2 * p + 2"
    by (auto simp: bfs_leaf_def split: if_splits)
  then have lvl: "slot_level c = slot_level p + 1"
    by (auto simp: slot_level_pos)
  have small: "c < 2 ^ 31" "p < 2 ^ 31"
    using c(1) assms(1,2) by simp_all
  have dc: "unat (mDepth (bfs_heap vs ! c)) = slot_level c"
    using c(1) by (simp add: bfs_leaf_def unat_slot_level [OF small(1)])
  have dp: "unat (mDepth (bfs_heap vs ! p)) = slot_level p"
    using assms(2) by (simp add: bfs_leaf_def unat_slot_level [OF small(2)])
  show ?thesis
    using c(1) by (simp only: dc dp lvl)
qed

lemma bfs_heap_parent:
  assumes "0 < c" and "c < length vs"
  shows "\<exists>p<length vs. mRight (bfs_heap vs ! p) = Some c \<or> mLeft (bfs_heap vs ! p) = Some c"
proof (intro exI conjI)
  show p: "(c - 1) div 2 < length vs" using assms by simp
  have "c = 2 * ((c - 1) div 2) + 1 \<or> c = 2 * ((c - 1) div 2) + 2"
    using assms(1) by presburger
  then show "mRight (bfs_heap vs ! ((c - 1) div 2)) = Some c \<or> mLeft (bfs_heap vs ! ((c - 1) div 2)) = Some c"
    using p assms(2) by (auto simp: bfs_leaf_def)
qed

lemma bfs_heap_left_needs_right:
  assumes "a < length vs" and "mLeft (bfs_heap vs ! a) \<noteq> None"
  shows "mRight (bfs_heap vs ! a) \<noteq> None"
  using assms by (auto simp: bfs_leaf_def split: if_splits)

lemma random_values_range:
  assumes "a < k"
  shows "0 \<le> sint (random_values rand k ! a)" and "sint (random_values rand k ! a) \<le> 254"
proof -
  have "rand a mod 255 < 2 ^ 31"
    by (rule less_trans [of _ 255]) simp_all
  then have "sint (word_of_nat (rand a mod 255) :: 32 word) = int (rand a mod 255)"
    by (rule sint_of_nat_small)
  moreover have "rand a mod 255 < 255" by simp
  ultimately show "0 \<le> sint (random_values rand k ! a)" and "sint (random_values rand k ! a) \<le> 254"
    using assms by (simp_all add: random_values_def)
qed

section \<open>Walks over trees of any shape\<close>

lemma nodes_present: "concat (map nodes (present t)) = nodes t"
  by (cases t) simp_all

lemma set_bfs: "set (bfs ts) = set (concat (map nodes ts))"
proof (induction ts rule: bfs.induct)
  case (3 a r l ts)
  have "set (concat (map nodes (ts @ present r @ present l)))
          = set (concat (map nodes ts)) \<union> set (nodes r) \<union> set (nodes l)"
    using nodes_present [of r] nodes_present [of l]
    by (metis Un_assoc concat_append map_append set_append)
  with 3 show ?case by auto
qed simp_all

lemma sum_list_bfs:
  fixes f :: "addr \<Rightarrow> 'b :: comm_monoid_add"
  shows "sum_list (map f (bfs ts)) = sum_list (map f (concat (map nodes ts)))"
proof (induction ts rule: bfs.induct)
  case (3 a r l ts)
  have "sum_list (map f (concat (map nodes (ts @ present r @ present l))))
          = sum_list (map f (concat (map nodes ts)))
            + (sum_list (map f (concat (map nodes (present r))))
               + sum_list (map f (concat (map nodes (present l)))))"
    by simp
  then have "sum_list (map f (concat (map nodes (ts @ present r @ present l))))
          = sum_list (map f (concat (map nodes ts))) + (sum_list (map f (nodes r)) + sum_list (map f (nodes l)))"
    by (simp only: nodes_present)
  with 3 show ?case by (simp add: ac_simps)
qed simp_all

lemma length_bfs: "length (bfs ts) = length (concat (map nodes ts))"
proof -
  have "sum_list (map (\<lambda>a. 1 :: nat) (bfs ts)) = sum_list (map (\<lambda>a. 1) (concat (map nodes ts)))"
    by (rule sum_list_bfs)
  then show ?thesis by (simp add: sum_list_triv)
qed

lemma is_tree_nodes_in_heap: "is_tree h p t \<Longrightarrow> a \<in> set (nodes t) \<Longrightarrow> a < length h"
  by (induction t arbitrary: p) auto

lemma Walk_with_start:
  assumes "is_tree h (Some this) t"
  shows "Walk h walker this True s = visit_all walker (bfs [t]) s"
  using Walk_loop_bfs [of h "[this]" "[t]" walker s] assms by (simp add: Walk_def)

lemma Walk_without_start:
  assumes "is_tree h (Some this) (Fork this r l)"
  shows "Walk h walker this False s = visit_all walker (bfs (present l @ present r)) s"
proof -
  from assms have valid: "this < length h"
    and r: "is_tree h (mRight (h ! this)) r" and l: "is_tree h (mLeft (h ! this)) l"
    by simp_all
  have "list_all2 (\<lambda>a t. is_tree h (Some a) t)
          ((case mLeft (h ! this) of None \<Rightarrow> [] | Some l \<Rightarrow> [l])
             @ (case mRight (h ! this) of None \<Rightarrow> [] | Some r \<Rightarrow> [r]))
          (present l @ present r)"
    using child_queue [OF r] child_queue [OF l] by (intro list_all2_appendI)
  from Walk_loop_bfs [OF this, of walker s] show ?thesis
    using valid by (simp add: Walk_def split: option.splits)
qed

lemma visit_all_ratio_walker:
  assumes "\<forall>a \<in> set as. a < length h"
  shows "visit_all (ratio_walker h) as (children, weightSum)
           = Some (children + word_of_nat (length as), weightSum + sum_list (map (\<lambda>a. weight (h ! a)) as))"
  using assms
  by (induction as arbitrary: children weightSum) (simp_all add: ratio_walker_def ac_simps)

lemma ratio_words:
  assumes "is_tree h (Some this) (Fork this r l)"
  shows "GetWeightSumChildrenRatio h this =
           Some (double_div (sint (sum_list (map (\<lambda>a. weight (h ! a)) (nodes (Fork this r l)))))
                   (sint (if sint (1 :: 32 word) < sint (word_of_nat (length (nodes r @ nodes l)) :: 32 word)
                          then word_of_nat (length (nodes r @ nodes l)) else (1 :: 32 word))))"
proof -
  from assms have valid: "this < length h"
    and r: "is_tree h (mRight (h ! this)) r" and l: "is_tree h (mLeft (h ! this)) l"
    by simp_all
  have in_heap: "\<forall>a \<in> set (bfs (present l @ present r)). a < length h"
    using is_tree_nodes_in_heap [OF r] is_tree_nodes_in_heap [OF l]
    by (auto simp: set_bfs nodes_present)
  have len: "length (bfs (present l @ present r)) = length (nodes r @ nodes l)"
    by (simp add: length_bfs nodes_present)
  have sum: "sum_list (map (\<lambda>a. weight (h ! a)) (bfs (present l @ present r)))
               = sum_list (map (\<lambda>a. weight (h ! a)) (nodes r @ nodes l))"
    by (simp add: sum_list_bfs nodes_present ac_simps)
  have "Walk h (ratio_walker h) this False (0, weight (h ! this))
          = Some (word_of_nat (length (nodes r @ nodes l)),
                  weight (h ! this) + sum_list (map (\<lambda>a. weight (h ! a)) (nodes r @ nodes l)))"
    by (simp only: Walk_without_start [OF assms] visit_all_ratio_walker [OF in_heap] len sum add_0)
  then show ?thesis
    using valid by (simp add: GetWeightSumChildrenRatio_def Let_def)
qed

section \<open>The ratio without overflow\<close>

lemma weight_exact: "weight (h ! a) = word_of_int (exact_weight h a)"
proof -
  have "(word_of_int (int (unat (mDepth (h ! a)))) :: 32 word) = ucast (mDepth (h ! a))"
    by simp
  moreover have "(word_of_int (sint (mValue (h ! a))) :: 32 word) = mValue (h ! a)"
    by simp
  ultimately show ?thesis
    by (simp only: weight_def exact_weight_def of_int_mult)
qed

lemma sum_list_word_of_int:
  "sum_list (map (\<lambda>a. word_of_int (f a) :: 32 word) as) = word_of_int (sum_list (map f as))"
  by (induction as) simp_all

lemma sint_of_int_small:
  assumes "- (2 ^ 31) \<le> x" and "x < 2 ^ 31"
  shows "sint (word_of_int x :: 32 word) = x"
  using assms by (simp add: signed_of_int signed_take_bit_int_eq_self)

lemma sint_sum_weights:
  assumes "- (2 ^ 31) \<le> (\<Sum>a\<leftarrow>as. exact_weight h a)" and "(\<Sum>a\<leftarrow>as. exact_weight h a) < 2 ^ 31"
  shows "sint (sum_list (map (\<lambda>a. weight (h ! a)) as)) = (\<Sum>a\<leftarrow>as. exact_weight h a)"
proof -
  from assms have "sint (word_of_int (\<Sum>a\<leftarrow>as. exact_weight h a) :: 32 word) = (\<Sum>a\<leftarrow>as. exact_weight h a)"
    by (rule sint_of_int_small)
  then show ?thesis
    by (simp only: weight_exact sum_list_word_of_int)
qed

lemma sint_children:
  assumes "k < 2 ^ 31"
  shows "sint (if sint (1 :: 32 word) < sint (word_of_nat k :: 32 word) then word_of_nat k else (1 :: 32 word))
           = int (max 1 k)"
  using sint_of_nat_small [OF assms] by (auto simp: max_def)

text \<open>
  Where the number of descendants and the sum of depth times value, over the node and its
  descendants, are within the range of an \<open>int\<close>, the result is the quotient of the two,
  rounded to a \<open>double\<close>.
\<close>

lemma ratio_without_overflow:
  assumes "is_tree h (Some this) (Fork this r l)"
    and "length (nodes r @ nodes l) < 2 ^ 31"
    and "- (2 ^ 31) \<le> (\<Sum>a\<leftarrow>this # nodes r @ nodes l. exact_weight h a)"
    and "(\<Sum>a\<leftarrow>this # nodes r @ nodes l. exact_weight h a) < 2 ^ 31"
  shows "GetWeightSumChildrenRatio h this =
           Some (double_div (\<Sum>a\<leftarrow>this # nodes r @ nodes l. exact_weight h a)
                   (int (max 1 (length (nodes r @ nodes l)))))"
proof -
  have w: "sint (sum_list (map (\<lambda>a. weight (h ! a)) (nodes (Fork this r l))))
             = (\<Sum>a\<leftarrow>this # nodes r @ nodes l. exact_weight h a)"
    using sint_sum_weights [OF assms(3) assms(4)] by simp
  show ?thesis
    by (simp only: ratio_words [OF assms(1)] w sint_children [OF assms(2)])
qed

section \<open>The rounded quotient\<close>

text \<open>A quotient that is an integer is not rounded.\<close>

lemma round_half_even_dvd:
  assumes "d dvd n" and "0 < d"
  shows "real (round_half_even (n * 2 ^ s) d) / 2 ^ s = real n / real d"
proof -
  from assms(1) have "d dvd n * 2 ^ s" by simp
  then have "(n * 2 ^ s) mod d = 0" by simp
  with assms(2) have "round_half_even (n * 2 ^ s) d = n * 2 ^ s div d"
    by (simp add: round_half_even_def)
  also have "\<dots> = n div d * 2 ^ s"
    using assms(1) by (rule dvd_div_mult [symmetric])
  finally have "real (round_half_even (n * 2 ^ s) d) / 2 ^ s = real (n div d)" by simp
  also have "\<dots> = real n / real d" using assms(1) by (rule real_of_nat_div)
  finally show ?thesis .
qed

lemma double_div_exact:
  assumes "b \<noteq> 0" and "b dvd a"
  shows "double_div a b = real_of_int a / real_of_int b"
proof -
  from assms have d: "nat \<bar>b\<bar> dvd nat \<bar>a\<bar>" and p: "0 < nat \<bar>b\<bar>"
    by (simp_all add: nat_abs_dvd_iff)
  have "double_div a b
          = (if (a < 0) = (b < 0) then 1 else - 1) * (real (nat \<bar>a\<bar>) / real (nat \<bar>b\<bar>))"
    using round_half_even_dvd [OF d p] by (simp add: double_div_def Let_def)
  also have "\<dots> = real_of_int a / real_of_int b"
    using assms(1) by (cases "a < 0"; cases "b < 0") (simp_all add: abs_if)
  finally show ?thesis .
qed

text \<open>13 / 3 is rounded to \<open>0x1.1555555555555p+2\<close>, below 13 / 3.\<close>

lemma significand_shift_13_3: "significand_shift 0 13 3 = 50"
  by (simp add: significand_shift.simps)

lemma double_div_13_3: "double_div 13 3 = 4878899596318037 / 2 ^ 50"
  by (simp add: double_div_def Let_def significand_shift_13_3 round_half_even_def)

lemma double_div_13_3_rounded: "double_div 13 3 < 13 / 3"
  by (simp add: double_div_13_3)

section \<open>Evaluating the examples\<close>

lemmas builder_defs =
  Deserialize_def istream_of_def getline_def newline_def Deserialize_body_def create_leaf_def
  alloc_def store_slot_def BinaryLeaf_new_def SetLeftChild_def SetRightChild_def
  GetRightChild_ref_def GetLeftChild_ref_def LEFT_def RIGHT_def ROOT_def

lemma stoi_5_3_8: "stoi ''5'' = Inr 5" "stoi ''3'' = Inr 3" "stoi ''8'' = Inr 8"
  by (simp_all add: stoi_def isspace_def isdigit_def digits_value_def)

lemmas stat_defs =
  GetMinMaxWeightSumChildrenRatio_def Walk_def Walk_loop.simps minmax_walker_def
  GetWeightSumChildrenRatio_def ratio_walker_def weight_def main_accumulators_def

lemma stoi_small:
  "stoi ''1'' = Inr 1" "stoi ''2'' = Inr 2" "stoi ''4'' = Inr 4" "stoi ''7'' = Inr 7" "stoi ''0'' = Inr 0"
  "stoi ''2147483647'' = Inr 2147483647"
  by (simp_all add: stoi_def isspace_def isdigit_def digits_value_def)

lemma tree4_deserialized:
  "Deserialize None (istream_of ''1\<newline>2\<newline>3\<newline>4\<newline>'') stoi = Inr (tree4, Some 0)"
  by (simp add: Deserialize_loop.simps builder_defs stoi_small stoi_5_3_8 tree4_def)

lemma tree4_generated: "GenerateTree (\<lambda>i. i + 1) 4 = Inr (tree4, Some 0, 4)"
  by (simp add: GenerateTree_def GenerateTree_loop.simps builder_defs tree4_def)

lemma single_node_deserialized:
  "Deserialize None (istream_of ''7\<newline>'') stoi = Inr (single_node, Some 0)"
  by (simp add: Deserialize_loop.simps builder_defs stoi_small single_node_def)

lemma single_node_generated: "GenerateTree (\<lambda>i. 7) 1 = Inr (single_node, Some 0, 1)"
  by (simp add: GenerateTree_def GenerateTree_loop.simps builder_defs single_node_def)

lemma overflow_tree_deserialized:
  "Deserialize None (istream_of ''0\<newline>2147483647\<newline>1\<newline>'') stoi = Inr (overflow_tree, Some 0)"
  by (simp add: Deserialize_loop.simps builder_defs stoi_small overflow_tree_def)

lemma stoi_heavy: "stoi ''200000000'' = Inr 200000000"
  by (simp add: stoi_def isspace_def isdigit_def digits_value_def)

lemma heavy_pair_deserialized:
  "Deserialize None (istream_of ''0\<newline>200000000\<newline>'') stoi = Inr (heavy_pair, Some 0)"
  by (simp add: Deserialize_loop.simps builder_defs stoi_small stoi_heavy heavy_pair_def)

lemma digit_chars:
  "char_of (48 :: nat) = CHR ''0''" "char_of (49 :: nat) = CHR ''1''" "char_of (50 :: nat) = CHR ''2''"
  "char_of (51 :: nat) = CHR ''3''" "char_of (52 :: nat) = CHR ''4''" "char_of (53 :: nat) = CHR ''5''"
  "char_of (54 :: nat) = CHR ''6''" "char_of (55 :: nat) = CHR ''7''" "char_of (56 :: nat) = CHR ''8''"
  "char_of (57 :: nat) = CHR ''9''"
  by code_simp+


lemma is_tree_tree4: "is_tree tree4 (Some 0) shape4"
  by (simp add: tree4_def shape4_def)

lemma Deserialize_bfs_heap:
  assumes "Deserialize out s vd = Inr (h, rootp)"
  shows "\<exists>ws. h = bfs_heap ws \<and> rootp = (if ws = [] then out else Some 0)"
proof -
  have st: "([], out, [\<lparr>output = OutputVar, parent = None, direction = ROOT\<rparr>])
              = (bfs_heap [], (if [] = [] then out else Some 0), pending (length []))"
    by (simp add: pending_def slot_request_def)
  from Deserialize_loop_bfs_heap [OF st assms [unfolded Deserialize_def]]
  show ?thesis by simp
qed


lemma node_budget_le:
  "1 \<le> sint maxLeaves \<Longrightarrow> int (node_budget maxLeaves) \<le> sint maxLeaves"
  "sint maxLeaves \<le> 0 \<Longrightarrow> node_budget maxLeaves = 1"
  by (auto simp: node_budget_def)

lemma collect_all: "visit_all collect as visited = Some (visited @ as)"
  by (induction as arbitrary: visited) (simp_all add: collect_def)


section \<open>The claims\<close>

subsection \<open>C1: serializing and deserializing\<close>




subsection \<open>C2: the seeds of the minimum and maximum\<close>

text \<open>
  Claim C2 at the tree of a single node with value 7, with the accumulators as \<open>main\<close>
  seeds them. The ratio of the node is 0, which is not greater than the seed 0 of the
  maximum: the maximum holder is still the null pointer after the search. At
  \<open>heavy_pair\<close> both ratios are 200000000, above the seed 99999999 of the minimum, and the
  minimum holder is still the null pointer. At \<open>tree4\<close> both seeds are replaced.
\<close>

theorem minmax_single_node_leaves_max_unset:
  "GetMinMaxWeightSumChildrenRatio single_node 0 main_accumulators = Some (0, Some 0, 0, None)
   \<and> GetMinMaxWeightSumChildrenRatio heavy_pair 0 main_accumulators = Some (99999999, None, 200000000, Some 0)
   \<and> GetMinMaxWeightSumChildrenRatio tree4 0 main_accumulators = Some (3, Some 2, 10, Some 1)"
  by (simp add: stat_defs single_node_def heavy_pair_def tree4_def double_div_exact double_div_13_3)

subsection \<open>C3: the lines 5, 3, 8\<close>

text \<open>
  Claim C3, as the code has it. Whatever \<open>output\<close> points to before the call,
  deserializing the three lines 5, 3, 8 gives a root with value 5 and depth 0; its right
  child (the second node) has value 3, depth 1 and direction RIGHT; its left child (the
  third node) has value 8, depth 1 and direction LEFT. The third line fills the root's
  left slot, which is the second request of the queue.
\<close>

theorem deserialize_5_3_8:
  "Deserialize out (istream_of ''5\<newline>3\<newline>8\<newline>'') stoi = Inr (tree_5_3_8, Some 0)
   \<and> mValue (tree_5_3_8 ! 0) = 5 \<and> mDepth (tree_5_3_8 ! 0) = 0
   \<and> mRight (tree_5_3_8 ! 0) = Some 1
   \<and> mValue (tree_5_3_8 ! 1) = 3 \<and> mDepth (tree_5_3_8 ! 1) = 1 \<and> mDirection (tree_5_3_8 ! 1) = RIGHT
   \<and> mLeft (tree_5_3_8 ! 0) = Some 2
   \<and> mValue (tree_5_3_8 ! 2) = 8 \<and> mDepth (tree_5_3_8 ! 2) = 1 \<and> mDirection (tree_5_3_8 ! 2) = LEFT"
  by (simp add: Deserialize_loop.simps builder_defs stoi_5_3_8 tree_5_3_8_def)

text \<open>
  Claim C3 as stated says that the root's left child is absent after the three lines.
  It is present, with value 8, whether or not a newline follows the last line.
\<close>

theorem deserialize_5_3_8_left_child_present:
  "Deserialize None (istream_of ''5\<newline>3\<newline>8'') stoi = Inr (tree_5_3_8, Some 0)
   \<and> Deserialize None (istream_of ''5\<newline>3\<newline>8\<newline>'') stoi = Inr (tree_5_3_8, Some 0)
   \<and> mLeft (tree_5_3_8 ! 0) = Some 2 \<and> mLeft (tree_5_3_8 ! 0) \<noteq> None
   \<and> mValue (tree_5_3_8 ! 2) = 8"
  by (simp add: Deserialize_loop.simps builder_defs stoi_5_3_8 tree_5_3_8_def)

subsection \<open>C4: the order of siblings\<close>

text \<open>
  Claim C4, as the code has it. For a start node with the subtree \<open>r\<close> on its right and
  \<open>l\<close> on its left, the walk that includes the start node calls the callback on the
  start node and then follows the breadth-first order that puts right children before
  left children, from the children \<open>r\<close>, \<open>l\<close> in this order. The walk that leaves the start
  node out follows the same order from the children taken the other way round: the left
  child is put in the queue first, then the right child.
\<close>

theorem Walk_sibling_order:
  assumes "is_tree h (Some this) (Fork this r l)"
  shows "Walk h walker this True s = visit_all walker (this # bfs (present r @ present l)) s
         \<and> Walk h walker this False s = visit_all walker (bfs (present l @ present r)) s"
  using Walk_with_start [OF assms, of walker s] Walk_without_start [OF assms, of walker s]
  by simp


theorem Walk_sibling_order_witness:
  "is_tree tree4 (Some 0) shape4
   \<and> Walk tree4 collect 0 True [] = Some [0, 1, 2, 3]
   \<and> Walk tree4 collect 0 False [] = Some [2, 1, 3]"
proof -
  have t: "is_tree tree4 (Some 0) (Fork 0 (Fork 1 (Fork 3 Empty Empty) Empty) (Fork 2 Empty Empty))"
    by (simp add: tree4_def)
  show ?thesis
    using Walk_sibling_order [OF t, of collect "[]"] is_tree_tree4
    by (simp add: collect_def)
qed


text \<open>
  Claim C4 as stated says that the walk without the start node visits the right child
  before the left child. On \<open>tree4\<close>, whose root has the right child 1 and the left child
  2, it visits 2 first.
\<close>

theorem Walk_without_start_left_first:
  "mRight (tree4 ! 0) = Some 1 \<and> mLeft (tree4 ! 0) = Some 2
   \<and> Walk tree4 collect 0 False [] = Some [2, 1, 3]"
  by (simp add: tree4_def Walk_def Walk_loop.simps collect_def)


subsection \<open>C5: the size and the depths of a generated tree\<close>

text \<open>
  Claim C5. For every budget and every random source \<open>GenerateTree\<close> returns a tree whose
  root is the first node. The walk from the root visits all nodes of the heap, so the
  tree has \<open>length h\<close> nodes: at least 1, at most the budget when the budget is at least
  1, and exactly 1 when the budget is 0 or negative. The root has depth 0, every child
  has the depth of its parent plus 1 (as numbers, without wrap-around of the 16-bit
  field), and every node but the root is the child of a node.
\<close>

theorem GenerateTree_size_and_depths:
  "\<exists>h calls.
     GenerateTree rand maxLeaves = Inr (h, Some 0, calls)
     \<and> Walk h collect 0 True [] = Some [0..<length h]
     \<and> 1 \<le> length h
     \<and> (1 \<le> sint maxLeaves \<longrightarrow> int (length h) \<le> sint maxLeaves)
     \<and> (sint maxLeaves \<le> 0 \<longrightarrow> length h = 1)
     \<and> mDepth (h ! 0) = 0
     \<and> (\<forall>p c. p < length h \<longrightarrow> mRight (h ! p) = Some c \<or> mLeft (h ! p) = Some c \<longrightarrow>
                c < length h \<and> unat (mDepth (h ! c)) = unat (mDepth (h ! p)) + 1)
     \<and> (\<forall>c. 0 < c \<longrightarrow> c < length h \<longrightarrow>
              (\<exists>p. p < length h \<and> (mRight (h ! p) = Some c \<or> mLeft (h ! p) = Some c)))"
proof -
  define vs where "vs = random_values rand (node_budget maxLeaves)"
  have len: "length vs = node_budget maxLeaves"
    by (simp add: vs_def)
  have ne: "vs \<noteq> []" and small: "length vs < 2 ^ 31"
    using node_budget_bound [of maxLeaves] by (simp_all add: vs_def)
  have f1: "GenerateTree rand maxLeaves = Inr (bfs_heap vs, Some 0, node_budget maxLeaves)"
    by (simp add: GenerateTree_bfs_heap vs_def)
  have f2: "Walk (bfs_heap vs) collect 0 True [] = Some [0..<length (bfs_heap vs)]"
    by (simp add: Walk_bfs_heap_root [OF ne] collect_all)
  have f3: "1 \<le> length (bfs_heap vs)"
    using ne by (cases vs) simp_all
  have f4: "1 \<le> sint maxLeaves \<longrightarrow> int (length (bfs_heap vs)) \<le> sint maxLeaves"
    using node_budget_le(1) [of maxLeaves] by (simp add: len)
  have f5: "sint maxLeaves \<le> 0 \<longrightarrow> length (bfs_heap vs) = 1"
    using node_budget_le(2) [of maxLeaves] by (simp add: len)
  have f6: "mDepth (bfs_heap vs ! 0) = 0"
    using ne by (simp add: bfs_leaf_def)
  have f7: "\<forall>p c. p < length (bfs_heap vs) \<longrightarrow>
        mRight (bfs_heap vs ! p) = Some c \<or> mLeft (bfs_heap vs ! p) = Some c \<longrightarrow>
        c < length (bfs_heap vs) \<and> unat (mDepth (bfs_heap vs ! c)) = unat (mDepth (bfs_heap vs ! p)) + 1"
  proof (intro allI impI)
    fix p c
    assume "p < length (bfs_heap vs)"
      and "mRight (bfs_heap vs ! p) = Some c \<or> mLeft (bfs_heap vs ! p) = Some c"
    then show "c < length (bfs_heap vs) \<and> unat (mDepth (bfs_heap vs ! c)) = unat (mDepth (bfs_heap vs ! p)) + 1"
      using bfs_heap_child_depth [OF small, of p c] by (simp only: length_bfs_heap)
  qed
  have f8: "\<forall>c. 0 < c \<longrightarrow> c < length (bfs_heap vs) \<longrightarrow>
        (\<exists>p. p < length (bfs_heap vs) \<and> (mRight (bfs_heap vs ! p) = Some c \<or> mLeft (bfs_heap vs ! p) = Some c))"
  proof (intro allI impI)
    fix c
    assume "0 < c" and "c < length (bfs_heap vs)"
    then show "\<exists>p. p < length (bfs_heap vs) \<and> (mRight (bfs_heap vs ! p) = Some c \<or> mLeft (bfs_heap vs ! p) = Some c)"
      using bfs_heap_parent [of c vs] by (simp only: length_bfs_heap)
  qed
  show ?thesis
    apply (rule exI [of _ "bfs_heap vs"])
    apply (rule exI [of _ "node_budget maxLeaves"])
    apply (intro conjI)
           apply (rule f1)
          apply (rule f2)
         apply (rule f3)
        apply (rule f4)
       apply (rule f5)
      apply (rule f6)
     apply (rule f7)
    apply (rule f8)
    done
qed


theorem GenerateTree_size_and_depths_witness:
  "(\<exists>h calls. GenerateTree (\<lambda>i. i + 1) 4 = Inr (h, Some 0, calls)
      \<and> 1 \<le> length h \<and> int (length h) \<le> 4 \<and> mDepth (h ! 0) = 0)
   \<and> (\<exists>h calls. GenerateTree (\<lambda>i. i + 1) (- 5) = Inr (h, Some 0, calls) \<and> length h = 1)"
proof
  from GenerateTree_size_and_depths [of "\<lambda>i. i + 1" 4]
  obtain h calls where "GenerateTree (\<lambda>i. i + 1) 4 = Inr (h, Some 0, calls)"
    and "1 \<le> length h" and "1 \<le> sint (4 :: 32 word) \<longrightarrow> int (length h) \<le> sint (4 :: 32 word)"
    and "mDepth (h ! 0) = 0"
    by (elim exE conjE)
  then show "\<exists>h calls. GenerateTree (\<lambda>i. i + 1) 4 = Inr (h, Some 0, calls)
      \<and> 1 \<le> length h \<and> int (length h) \<le> 4 \<and> mDepth (h ! 0) = 0"
    by (intro exI [of _ h] exI [of _ calls]) simp
next
  from GenerateTree_size_and_depths [of "\<lambda>i. i + 1" "- 5"]
  obtain h calls where "GenerateTree (\<lambda>i. i + 1) (- 5) = Inr (h, Some 0, calls)"
    and "sint (- 5 :: 32 word) \<le> 0 \<longrightarrow> length h = 1"
    by (elim exE conjE)
  then show "\<exists>h calls. GenerateTree (\<lambda>i. i + 1) (- 5) = Inr (h, Some 0, calls) \<and> length h = 1"
    by (intro exI [of _ h] exI [of _ calls]) simp
qed


subsection \<open>C6: the ratio of a subtree\<close>

text \<open>
  Claim C6 says that for every node the ratio is the sum of depth times value over the node
  and all its descendants, divided by the larger of 1 and the number of descendants; so does
  the comment of \<open>GetWeightSumChildrenRatio\<close>. The code adds the weights up in the \<open>int\<close>
  \<open>weightSum\<close>, and the addition overflows on a tree that \<open>Deserialize\<close> builds: the lines
  0, 2147483647 and 1 give \<open>overflow_tree\<close>, in which depth times value sums to
  \<open>2147483648 = 2 ^ 31\<close> over the root and its two children. The overflow of an \<open>int\<close> is
  undefined in C++; with the addition that wraps, the ratio of the root is \<open>- 1073741824\<close>,
  where the sum divided by the two descendants is 1073741824.
\<close>

theorem ratio_overflow:
  "Deserialize None (istream_of ''0\<newline>2147483647\<newline>1\<newline>'') stoi = Inr (overflow_tree, Some 0)
   \<and> GetWeightSumChildrenRatio overflow_tree 0 = Some (- 1073741824)
   \<and> (\<Sum>a\<leftarrow>[0, 1, 2]. exact_weight overflow_tree a) = 2147483648
   \<and> real_of_int (\<Sum>a\<leftarrow>[0, 1, 2]. exact_weight overflow_tree a) / real (max 1 2) = 1073741824"
proof -
  have "GetWeightSumChildrenRatio overflow_tree 0 = Some (- 1073741824)"
    by (simp add: stat_defs overflow_tree_def double_div_exact)
  moreover have "(\<Sum>a\<leftarrow>[0, 1, 2]. exact_weight overflow_tree a) = 2147483648"
    by (simp add: exact_weight_def overflow_tree_def)
  ultimately show ?thesis
    using overflow_tree_deserialized by simp
qed


subsection \<open>C7: destroying a tree\<close>

text \<open>
  Claim C7 at \<open>tree4\<close>, whose node 3 is a grandchild of the root. Deleting the root walks
  over the children; deleting the child 1 runs its destructor, which deletes node 3; the
  walk of the root has node 3 in its queue by then and reads it after its storage was
  released. This is the outcome for any fuel from 7 on. At \<open>tree3\<close>, which has no
  grandchild, deleting the root releases every node once.
\<close>

theorem delete_root_reads_freed_node:
  "delete_leaf (n + 7) (map Some tree4) 0 = Some (Inl (UseAfterFree 3))
   \<and> delete_leaf (n + 5) (map Some tree3) 0 = Some (Inr [None, None, None])"
  by (simp add: tree4_def tree3_def eval_nat_numeral)

subsection \<open>C8: the values of a generated tree\<close>

text \<open>
  Claim C8. \<open>GenerateTree\<close> calls the random source as many times as it creates nodes;
  the node created number \<open>a\<close> holds the result of call number \<open>a\<close> modulo 255, which lies
  between 0 and 255.
\<close>

theorem GenerateTree_values_and_calls:
  "\<exists>h rootp.
     GenerateTree rand maxLeaves = Inr (h, rootp, length h)
     \<and> (\<forall>a. a < length h \<longrightarrow>
            mValue (h ! a) = word_of_nat (rand a mod 255)
            \<and> 0 \<le> sint (mValue (h ! a)) \<and> sint (mValue (h ! a)) \<le> 255)"
proof -
  define vs where "vs = random_values rand (node_budget maxLeaves)"
  have len: "length vs = node_budget maxLeaves"
    by (simp add: vs_def)
  have "GenerateTree rand maxLeaves = Inr (bfs_heap vs, Some 0, length (bfs_heap vs))"
    by (simp add: GenerateTree_bfs_heap vs_def)
  moreover have "mValue (bfs_heap vs ! a) = word_of_nat (rand a mod 255)
        \<and> 0 \<le> sint (mValue (bfs_heap vs ! a)) \<and> sint (mValue (bfs_heap vs ! a)) \<le> 255"
    if "a < length (bfs_heap vs)" for a
  proof -
    from that have a: "a < node_budget maxLeaves" by (simp add: len)
    have "mValue (bfs_heap vs ! a) = random_values rand (node_budget maxLeaves) ! a"
      using a by (simp add: bfs_leaf_def vs_def)
    moreover have "random_values rand (node_budget maxLeaves) ! a = word_of_nat (rand a mod 255)"
      using a by (simp add: random_values_def)
    ultimately show ?thesis
      using random_values_range [OF a, of rand] by simp
  qed
  ultimately show ?thesis by blast
qed


theorem GenerateTree_values_and_calls_witness:
  "GenerateTree (\<lambda>i. i + 1000) 4 =
     Inr ([\<lparr>mValue = 235, mDepth = 0, mDirection = ROOT, mRight = Some 1, mLeft = Some 2\<rparr>,
           \<lparr>mValue = 236, mDepth = 1, mDirection = RIGHT, mRight = Some 3, mLeft = None\<rparr>,
           \<lparr>mValue = 237, mDepth = 1, mDirection = LEFT, mRight = None, mLeft = None\<rparr>,
           \<lparr>mValue = 238, mDepth = 2, mDirection = RIGHT, mRight = None, mLeft = None\<rparr>],
          Some 0, 4)
   \<and> (\<exists>h rootp. GenerateTree (\<lambda>i. i + 1000) 4 = Inr (h, rootp, length h)
         \<and> 0 \<le> sint (mValue (h ! 3)) \<and> sint (mValue (h ! 3)) \<le> 255)"
proof -
  have g: "GenerateTree (\<lambda>i. i + 1000) 4 =
     Inr ([\<lparr>mValue = 235, mDepth = 0, mDirection = ROOT, mRight = Some 1, mLeft = Some 2\<rparr>,
           \<lparr>mValue = 236, mDepth = 1, mDirection = RIGHT, mRight = Some 3, mLeft = None\<rparr>,
           \<lparr>mValue = 237, mDepth = 1, mDirection = LEFT, mRight = None, mLeft = None\<rparr>,
           \<lparr>mValue = 238, mDepth = 2, mDirection = RIGHT, mRight = None, mLeft = None\<rparr>],
          Some 0, 4)"
    by (simp add: GenerateTree_def GenerateTree_loop.simps builder_defs)
  show ?thesis
    using GenerateTree_values_and_calls [of "\<lambda>i. i + 1000" 4] g by auto
qed


subsection \<open>C9: the depth limit of Serialize\<close>

text \<open>
  Claim C9. \<open>Serialize\<close> writes the lines of the nodes in breadth-first order up to and
  with the first node whose depth exceeds \<open>skipDeep\<close>; when there is such a node, the
  marker line follows the line of that node and ends the output, so no value comes
  after the marker. Without a depth limit (\<open>skipDeep = -1\<close>, as in \<open>Serialize_plain\<close> with
  the default arguments) it writes the line of every node and nothing else.
\<close>

theorem Serialize_truncation:
  assumes "is_tree h (Some this) t"
  shows "Serialize h this to_text stream skipDeep pretty =
           Some (stream
                 @ concat (map (node_line h to_text pretty)
                             (takeWhile (\<lambda>a. \<not> too_deep h skipDeep a) (bfs [t])))
                 @ (case dropWhile (\<lambda>a. \<not> too_deep h skipDeep a) (bfs [t]) of
                      [] \<Rightarrow> []
                    | x # rest \<Rightarrow> node_line h to_text pretty x @ ''...'' @ [newline]))
         \<and> Serialize h this to_text stream (word_of_int (- 1)) pretty =
             Some (stream @ concat (map (node_line h to_text pretty) (bfs [t])))
         \<and> Serialize_plain h this to_text stream =
             Some (stream @ concat (map (node_line h to_text False) (bfs [t])))"
proof -
  have in_heap: "\<forall>a \<in> set (bfs [t]). a < length h"
    using is_tree_nodes_in_heap [OF assms] by (simp add: set_bfs)
  have limited: "Serialize h this to_text stream skipDeep pretty =
           Some (stream
                 @ concat (map (node_line h to_text pretty)
                             (takeWhile (\<lambda>a. \<not> too_deep h skipDeep a) (bfs [t])))
                 @ (case dropWhile (\<lambda>a. \<not> too_deep h skipDeep a) (bfs [t]) of
                      [] \<Rightarrow> []
                    | x # rest \<Rightarrow> node_line h to_text pretty x @ ''...'' @ [newline]))"
    by (simp only: Serialize_def Walk_with_start [OF assms] visit_all_Serialize_walker [OF in_heap])
  have unlimited: "Serialize h this to_text stream (word_of_int (- 1)) pretty' =
             Some (stream @ concat (map (node_line h to_text pretty') (bfs [t])))" for pretty'
    by (simp only: Serialize_def Walk_with_start [OF assms] word_of_int_neg_1
        visit_all_Serialize_walker_unlimited [OF in_heap])
  have plain: "Serialize_plain h this to_text stream =
             Some (stream @ concat (map (node_line h to_text False) (bfs [t])))"
    by (simp only: Serialize_plain_def unlimited)
  from limited unlimited plain show ?thesis by (intro conjI)
qed

theorem Serialize_truncation_witness:
  "is_tree tree4 (Some 0) shape4
   \<and> Serialize tree4 0 int_to_text [] 0 False = Some ''1\<newline>2\<newline>...\<newline>''
   \<and> Serialize tree4 0 int_to_text [] 1 False = Some ''1\<newline>2\<newline>3\<newline>4\<newline>...\<newline>''
   \<and> Serialize_plain tree4 0 int_to_text [] = Some ''1\<newline>2\<newline>3\<newline>4\<newline>''"
  using Serialize_truncation [OF is_tree_tree4, of int_to_text "[]" 0 False]
    Serialize_truncation [OF is_tree_tree4, of int_to_text "[]" 1 False] is_tree_tree4
  by (simp add: shape4_def tree4_def too_deep_def node_line_def int_to_text_def dec.simps newline_def digit_chars)



subsection \<open>C10: a left child needs a right child\<close>

text \<open>
  Claim C10. In a tree that \<open>Deserialize\<close> built, and in a tree that \<open>GenerateTree\<close> built,
  a node with a left child has a right child.
\<close>

theorem left_child_needs_right_child:
  "(Deserialize out s valueDeserializer = Inr (h, rootp) \<longrightarrow> a < length h \<longrightarrow>
      mLeft (h ! a) \<noteq> None \<longrightarrow> mRight (h ! a) \<noteq> None)
   \<and> (GenerateTree rand maxLeaves = Inr (g, grootp, calls) \<longrightarrow> b < length g \<longrightarrow>
      mLeft (g ! b) \<noteq> None \<longrightarrow> mRight (g ! b) \<noteq> None)"
proof (intro conjI impI)
  assume "Deserialize out s valueDeserializer = Inr (h, rootp)"
    and a: "a < length h" "mLeft (h ! a) \<noteq> None"
  then obtain ws where "h = bfs_heap ws"
    using Deserialize_bfs_heap by blast
  with a show "mRight (h ! a) \<noteq> None"
    using bfs_heap_left_needs_right [of a ws] by simp
next
  assume "GenerateTree rand maxLeaves = Inr (g, grootp, calls)"
    and b: "b < length g" "mLeft (g ! b) \<noteq> None"
  then have "g = bfs_heap (random_values rand (node_budget maxLeaves))"
    by (auto simp: GenerateTree_bfs_heap)
  with b show "mRight (g ! b) \<noteq> None"
    using bfs_heap_left_needs_right [of b "random_values rand (node_budget maxLeaves)"] by simp
qed


theorem left_child_needs_right_child_witness:
  "Deserialize None (istream_of ''1\<newline>2\<newline>3\<newline>4\<newline>'') stoi = Inr (tree4, Some 0)
   \<and> GenerateTree (\<lambda>i. i + 1) 4 = Inr (tree4, Some 0, 4)
   \<and> 0 < length tree4 \<and> mLeft (tree4 ! 0) \<noteq> None \<and> mRight (tree4 ! 0) \<noteq> None"
proof -
  have len: "0 < length tree4" and left: "mLeft (tree4 ! 0) \<noteq> None"
    by (simp_all add: tree4_def)
  from left_child_needs_right_child [of None "istream_of ''1\<newline>2\<newline>3\<newline>4\<newline>''" stoi tree4 "Some 0" 0,
      THEN conjunct1, rule_format, OF tree4_deserialized len left]
  show ?thesis using tree4_deserialized tree4_generated len left by simp
qed


end
